theory Spec2Isabelle
  imports Main "HOL-Library.Word"
begin

section \<open>Abstract syntax tree\<close>

text \<open>
  The classes derived from \<open>Ast::Node\<close> in \<open>codegen.cpp\<close>.  The six leaf classes carry no
  data; \<open>ConditionalGroupNode\<close> owns the vector of its children.  \<open>ProgramNode\<close> is the
  root produced by \<open>ProgramNode::try_parse\<close>; \<open>Node::try_parse\<close> never creates one,
  so it is a type of its own.
\<close>

datatype node =
    IncrementNode
  | DecrementNode
  | MoveLeftNode
  | MoveRightNode
  | PutCharNode
  | GetCharNode
  | ConditionalGroupNode "node list"

datatype program = ProgramNode "node list"

section \<open>Parser\<close>

text \<open>
  The input file is read with \<open>in >> c\<close> on a \<open>char\<close>: formatted extraction skips
  leading white space of the classic locale and fails at the end of the stream.  The stream
  is modelled by the list of characters not yet read; once the extraction has failed the
  stream stays failed, which is the empty list here.
\<close>

definition isspace :: "char \<Rightarrow> bool" where
  "isspace c \<longleftrightarrow> c \<in> set [CHR '' '', CHR 0x09, CHR 0x0A, CHR 0x0B, CHR 0x0C, CHR 0x0D]"

definition extract_char :: "char list \<Rightarrow> (char \<times> char list) option" where
  "extract_char s = (case dropWhile isspace s of [] \<Rightarrow> None | c # cs \<Rightarrow> Some (c, cs))"

lemma extract_char_length: "extract_char s = Some (c, cs) \<Longrightarrow> length cs < length s"
proof -
  assume "extract_char s = Some (c, cs)"
  then have "dropWhile isspace s = c # cs"
    by (simp add: extract_char_def split: list.splits)
  then have "length (c # cs) \<le> length s"
    by (metis length_dropWhile_le)
  then show ?thesis by simp
qed

text \<open>
  \<open>Node::try_parse\<close> loops until a command character, a closing bracket or the end of the
  stream.  \<open>ConditionalGroupNode::try_parse\<close> and \<open>ProgramNode::try_parse\<close> run the same
  \<open>while ((node = Node::try_parse(in)))\<close> loop, which is \<open>scope_loop\<close> with the vector
  \<open>children\<close> as accumulator.  A pair of result and remaining stream is returned.
\<close>

function (sequential) Node_try_parse :: "char list \<Rightarrow> node option \<times> char list"
  and ConditionalGroupNode_try_parse :: "char list \<Rightarrow> node \<times> char list"
  and scope_loop :: "node list \<Rightarrow> char list \<Rightarrow> node list \<times> char list"
where
  "Node_try_parse s =
     (case extract_char s of
        None \<Rightarrow> (None, [])
      | Some (c, rest) \<Rightarrow>
          if c = CHR ''+'' then (Some IncrementNode, rest)
          else if c = CHR ''-'' then (Some DecrementNode, rest)
          else if c = CHR ''<'' then (Some MoveLeftNode, rest)
          else if c = CHR ''>'' then (Some MoveRightNode, rest)
          else if c = CHR ''.'' then (Some PutCharNode, rest)
          else if c = CHR '','' then (Some GetCharNode, rest)
          else if c = CHR ''['' then
            (case ConditionalGroupNode_try_parse rest of (n, rest') \<Rightarrow> (Some n, rest'))
          else if c = CHR '']'' then (None, rest)
          else Node_try_parse rest)"
| "ConditionalGroupNode_try_parse s =
     (case scope_loop [] s of (children, rest) \<Rightarrow> (ConditionalGroupNode children, rest))"
| "scope_loop children s =
     (case Node_try_parse s of
        (None, rest) \<Rightarrow> (children, rest)
      | (Some n, rest) \<Rightarrow> scope_loop (children @ [n]) rest)"
  by pat_completeness auto

lemma try_parse_dom_length:
  "Node_try_parse_ConditionalGroupNode_try_parse_scope_loop_dom (Inl s) \<Longrightarrow>
     length (snd (Node_try_parse s)) \<le> length s \<and>
     (fst (Node_try_parse s) \<noteq> None \<longrightarrow> length (snd (Node_try_parse s)) < length s)"
  "Node_try_parse_ConditionalGroupNode_try_parse_scope_loop_dom (Inr (Inl s1)) \<Longrightarrow>
     length (snd (ConditionalGroupNode_try_parse s1)) \<le> length s1"
  "Node_try_parse_ConditionalGroupNode_try_parse_scope_loop_dom (Inr (Inr (children, s2))) \<Longrightarrow>
     length (snd (scope_loop children s2)) \<le> length s2"
proof (induction s and s1 and children s2
    rule: Node_try_parse_ConditionalGroupNode_try_parse_scope_loop.pinduct)
  case (1 s)
  show ?case
  proof (cases "extract_char s")
    case None
    with 1(1) show ?thesis by (simp add: Node_try_parse.psimps)
  next
    case (Some p)
    obtain c rest where p: "p = (c, rest)" by (cases p)
    have len: "length rest < length s"
      using Some p extract_char_length by blast
    show ?thesis
      using 1(1) 1(2)[OF Some p[symmetric]] 1(3)[OF Some p[symmetric]] Some p len
      by (auto simp: Node_try_parse.psimps split: prod.splits)
  qed
next
  case (2 s)
  then show ?case
    by (auto simp: ConditionalGroupNode_try_parse.psimps split: prod.splits)
next
  case (3 children s)
  show ?case
  proof (cases "Node_try_parse s")
    case (Pair r rest)
    show ?thesis
    proof (cases r)
      case None
      with 3(1,2) Pair show ?thesis by (simp add: scope_loop.psimps)
    next
      case (Some n)
      from 3(3)[OF Pair[symmetric] Some] 3(2) Pair Some 3(1)
      show ?thesis by (simp add: scope_loop.psimps)
    qed
  qed
qed

termination Node_try_parse
proof (relation "measure (\<lambda>x. case x of Inl s \<Rightarrow> 3 * length s
                                  | Inr (Inl s) \<Rightarrow> 3 * length s + 2
                                  | Inr (Inr (ch, s)) \<Rightarrow> 3 * length s + 1)", goal_cases)
  case 1
  show ?case by simp
next
  case (2 s p c rest)
  then show ?case using extract_char_length[of s c rest] by simp
next
  case (3 s p c rest)
  then show ?case using extract_char_length[of s c rest] by simp
next
  case (4 s)
  show ?case by simp
next
  case (5 children s)
  show ?case by simp
next
  case (6 children s r rest n)
  then show ?case using try_parse_dom_length(1)[of s] by (cases "Node_try_parse s") auto
qed

declare Node_try_parse.simps [simp del]
declare ConditionalGroupNode_try_parse.simps [simp del]
declare scope_loop.simps [simp del]

definition ProgramNode_try_parse :: "char list \<Rightarrow> program \<times> char list" where
  "ProgramNode_try_parse s =
     (case scope_loop [] s of (children, rest) \<Rightarrow> (ProgramNode children, rest))"

fun debug_print :: "node \<Rightarrow> char list" where
  "debug_print IncrementNode = ''+''"
| "debug_print DecrementNode = ''-''"
| "debug_print MoveLeftNode = ''<''"
| "debug_print MoveRightNode = ''>''"
| "debug_print PutCharNode = ''.''"
| "debug_print GetCharNode = '',''"
| "debug_print (ConditionalGroupNode children) =
     ''['' @ concat (map debug_print children) @ '']''"

fun ProgramNode_debug_print :: "program \<Rightarrow> char list" where
  "ProgramNode_debug_print (ProgramNode children) = concat (map debug_print children)"

definition is_command :: "char \<Rightarrow> bool" where
  "is_command c \<longleftrightarrow> c \<in> set ''+-<>.,[]''"

inductive insert_filler :: "char list \<Rightarrow> char list \<Rightarrow> bool" where
  filler_nil: "insert_filler [] []"
| filler_keep: "insert_filler xs ys \<Longrightarrow> insert_filler (x # xs) (x # ys)"
| filler_ins: "insert_filler xs ys \<Longrightarrow> \<not> is_command c \<Longrightarrow> insert_filler xs (c # ys)"

fun unclosed_text :: "node list list \<Rightarrow> char list" where
  "unclosed_text [] = []"
| "unclosed_text (l # ls) = ''['' @ concat (map debug_print l) @ unclosed_text ls"

fun unclosed_tree :: "node list list \<Rightarrow> node list" where
  "unclosed_tree [] = []"
| "unclosed_tree (l # ls) = [ConditionalGroupNode (l @ unclosed_tree ls)]"

section \<open>The emitted LLVM IR\<close>

text \<open>
  \<open>const unsigned int TAPE_SIZE = 0x4000\<close>.
\<close>

definition TAPE_SIZE :: nat where
  "TAPE_SIZE = 0x4000"

text \<open>
  The fragment of LLVM IR that \<open>codegen.cpp\<close> builds.  An SSA value is either the result
  of an instruction, named by the number of its register, or a constant.  The names the
  source passes to the builder (\<open>"position"\<close>, \<open>"tape cell ptr"\<close>, ...) only label the
  printed IR and are left out.  Basic blocks are referred to by their index in the function.
\<close>

datatype ty = VoidTy | Int1Ty | Int8Ty | Int32Ty | Int64Ty | ArrayTy ty nat

datatype fnty = FunctionType ty "ty list"

datatype operand = Reg nat | ConstantInt ty int | ConstantAggregateZero ty

datatype cast_op = TruncOp | ZExtOp | SExtOp

datatype instr =
    Alloca nat ty
  | Store operand operand
  | Load nat ty operand
  | GEP nat ty operand "operand list"
  | Add nat operand operand
  | Sub nat operand operand
  | ICmpNE nat operand operand
  | Cast cast_op nat operand ty
  | Call nat fnty string "operand list"
  | CondBr operand nat nat
  | Ret "operand option"

text \<open>
  The globals \<open>TheModule\<close>, \<open>Builder\<close> and \<open>NamedValues\<close>, as one record threaded through
  code generation: the functions declared in the module, the basic blocks of \<open>main\<close> in
  creation order, the builder's insertion block, the next free register, and the map from
  names to \<open>AllocaInst*\<close> (the register of the alloca and its allocated type).  A name
  that is absent from \<open>NamedValues\<close> reads as a null pointer in the source, and using it
  crashes: code generation returns \<open>None\<close> there.
\<close>

record gen =
  module_functions :: "(string \<times> fnty) list"
  blocks :: "instr list list"
  insert_block :: "nat option"
  next_reg :: nat
  named_values :: "string \<rightharpoonup> nat \<times> ty"

definition llvm_init :: gen where
  "llvm_init = \<lparr>module_functions = [], blocks = [], insert_block = None, next_reg = 0,
                 named_values = Map.empty\<rparr>"

text \<open>
  The builder appends every created instruction at the end of the insertion block; without
  an insertion block the instruction is created but not inserted.
\<close>

definition Insert :: "instr \<Rightarrow> gen \<Rightarrow> gen" where
  "Insert i g =
     (case insert_block g of
        None \<Rightarrow> g
      | Some b \<Rightarrow> g\<lparr>blocks := (blocks g)[b := blocks g ! b @ [i]]\<rparr>)"

definition fresh :: "gen \<Rightarrow> nat \<times> gen" where
  "fresh g = (next_reg g, g\<lparr>next_reg := Suc (next_reg g)\<rparr>)"

definition CreateAlloca :: "ty \<Rightarrow> gen \<Rightarrow> (nat \<times> ty) \<times> gen" where
  "CreateAlloca t g = (case fresh g of (r, g') \<Rightarrow> ((r, t), Insert (Alloca r t) g'))"

definition CreateStore :: "operand \<Rightarrow> operand \<Rightarrow> gen \<Rightarrow> gen" where
  "CreateStore v p g = Insert (Store v p) g"

definition CreateLoad :: "ty \<Rightarrow> operand \<Rightarrow> gen \<Rightarrow> operand \<times> gen" where
  "CreateLoad t p g = (case fresh g of (r, g') \<Rightarrow> (Reg r, Insert (Load r t p) g'))"

definition CreateGEP :: "ty \<Rightarrow> operand \<Rightarrow> operand list \<Rightarrow> gen \<Rightarrow> operand \<times> gen" where
  "CreateGEP t p idxs g = (case fresh g of (r, g') \<Rightarrow> (Reg r, Insert (GEP r t p idxs) g'))"

definition CreateAdd :: "operand \<Rightarrow> operand \<Rightarrow> gen \<Rightarrow> operand \<times> gen" where
  "CreateAdd a b g = (case fresh g of (r, g') \<Rightarrow> (Reg r, Insert (Add r a b) g'))"

definition CreateSub :: "operand \<Rightarrow> operand \<Rightarrow> gen \<Rightarrow> operand \<times> gen" where
  "CreateSub a b g = (case fresh g of (r, g') \<Rightarrow> (Reg r, Insert (Sub r a b) g'))"

definition CreateICmpNE :: "operand \<Rightarrow> operand \<Rightarrow> gen \<Rightarrow> operand \<times> gen" where
  "CreateICmpNE a b g = (case fresh g of (r, g') \<Rightarrow> (Reg r, Insert (ICmpNE r a b) g'))"

definition CreateCall :: "fnty \<Rightarrow> string \<Rightarrow> operand list \<Rightarrow> gen \<Rightarrow> operand \<times> gen" where
  "CreateCall ft f args g = (case fresh g of (r, g') \<Rightarrow> (Reg r, Insert (Call r ft f args) g'))"

text \<open>
  \<open>CreateIntCast\<close> returns the value itself when the types agree, a \<open>trunc\<close> when the
  destination is narrower, and otherwise \<open>sext\<close> or \<open>zext\<close> according to \<open>isSigned\<close>.  The
  type of the operand is passed explicitly.
\<close>

fun int_bits :: "ty \<Rightarrow> nat" where
  "int_bits Int1Ty = 1"
| "int_bits Int8Ty = 8"
| "int_bits Int32Ty = 32"
| "int_bits Int64Ty = 64"
| "int_bits _ = 0"

definition CreateIntCast :: "operand \<Rightarrow> ty \<Rightarrow> ty \<Rightarrow> bool \<Rightarrow> gen \<Rightarrow> operand \<times> gen" where
  "CreateIntCast v src dest isSigned g =
     (if src = dest then (v, g)
      else case fresh g of (r, g') \<Rightarrow>
        (Reg r,
         Insert (Cast (if int_bits dest < int_bits src then TruncOp
                       else if isSigned then SExtOp else ZExtOp) r v dest) g'))"

definition CreateCondBr :: "operand \<Rightarrow> nat \<Rightarrow> nat \<Rightarrow> gen \<Rightarrow> gen" where
  "CreateCondBr c t f g = Insert (CondBr c t f) g"

definition CreateRet :: "operand option \<Rightarrow> gen \<Rightarrow> gen" where
  "CreateRet v g = Insert (Ret v) g"

definition BasicBlock_Create :: "gen \<Rightarrow> nat \<times> gen" where
  "BasicBlock_Create g = (length (blocks g), g\<lparr>blocks := blocks g @ [[]]\<rparr>)"

definition SetInsertPoint :: "nat \<Rightarrow> gen \<Rightarrow> gen" where
  "SetInsertPoint b g = g\<lparr>insert_block := Some b\<rparr>"

definition getOrInsertFunction :: "string \<Rightarrow> fnty \<Rightarrow> gen \<Rightarrow> gen" where
  "getOrInsertFunction f ft g =
     (if f \<in> fst ` set (module_functions g) then g
      else g\<lparr>module_functions := module_functions g @ [(f, ft)]\<rparr>)"

text \<open>
  The three static helpers of \<open>codegen.cpp\<close>.
\<close>

definition get_current_position :: "gen \<Rightarrow> (operand \<times> gen) option" where
  "get_current_position g =
     (case named_values g ''position'' of
        None \<Rightarrow> None
      | Some (position_var, t) \<Rightarrow> Some (CreateLoad t (Reg position_var) g))"

definition get_current_tape_cell_ptr :: "gen \<Rightarrow> (operand \<times> gen) option" where
  "get_current_tape_cell_ptr g =
     (case named_values g ''tape'' of
        None \<Rightarrow> None
      | Some (tape, t) \<Rightarrow>
          (case get_current_position g of
             None \<Rightarrow> None
           | Some (pos, g1) \<Rightarrow>
               Some (CreateGEP t (Reg tape) [ConstantInt Int8Ty 0, pos] g1)))"

definition get_current_tape_value :: "gen \<Rightarrow> (operand \<times> gen) option" where
  "get_current_tape_value g =
     (case get_current_tape_cell_ptr g of
        None \<Rightarrow> None
      | Some (ptr, g1) \<Rightarrow> Some (CreateLoad Int8Ty ptr g1))"

text \<open>
  The \<open>codegen\<close> methods of the node classes.  \<open>codegen_children\<close> is the loop
  \<open>for (auto child: children) child->codegen()\<close>.
\<close>

fun codegen :: "node \<Rightarrow> gen \<Rightarrow> gen option"
  and codegen_children :: "node list \<Rightarrow> gen \<Rightarrow> gen option"
where
  "codegen IncrementNode g =
     (case get_current_tape_cell_ptr g of
        None \<Rightarrow> None
      | Some (tape_cell_ptr, g1) \<Rightarrow>
          (case CreateLoad Int8Ty tape_cell_ptr g1 of (tape_cell, g2) \<Rightarrow>
           case CreateAdd tape_cell (ConstantInt Int8Ty 1) g2 of (new_value, g3) \<Rightarrow>
             Some (CreateStore new_value tape_cell_ptr g3)))"
| "codegen DecrementNode g =
     (case get_current_tape_cell_ptr g of
        None \<Rightarrow> None
      | Some (tape_cell_ptr, g1) \<Rightarrow>
          (case CreateLoad Int8Ty tape_cell_ptr g1 of (tape_cell, g2) \<Rightarrow>
           case CreateSub tape_cell (ConstantInt Int8Ty 1) g2 of (new_value, g3) \<Rightarrow>
             Some (CreateStore new_value tape_cell_ptr g3)))"
| "codegen MoveLeftNode g =
     (case named_values g ''position'' of
        None \<Rightarrow> None
      | Some (var, t) \<Rightarrow>
          (case CreateLoad t (Reg var) g of (current_value, g1) \<Rightarrow>
           case CreateSub current_value (ConstantInt Int64Ty 1) g1 of (new_value, g2) \<Rightarrow>
             Some (CreateStore new_value (Reg var) g2)))"
| "codegen MoveRightNode g =
     (case named_values g ''position'' of
        None \<Rightarrow> None
      | Some (var, t) \<Rightarrow>
          (case CreateLoad t (Reg var) g of (current_value, g1) \<Rightarrow>
           case CreateAdd current_value (ConstantInt Int64Ty 1) g1 of (new_value, g2) \<Rightarrow>
             Some (CreateStore new_value (Reg var) g2)))"
| "codegen PutCharNode g =
     (let putchar_type = FunctionType Int32Ty [Int8Ty];
          g0 = getOrInsertFunction ''putchar'' putchar_type g
      in case get_current_tape_value g0 of
           None \<Rightarrow> None
         | Some (tape_cell, g1) \<Rightarrow>
             Some (snd (CreateCall putchar_type ''putchar'' [tape_cell] g1)))"
| "codegen GetCharNode g =
     (let getchar_type = FunctionType Int32Ty [];
          g0 = getOrInsertFunction ''getchar'' getchar_type g
      in case CreateCall getchar_type ''getchar'' [] g0 of (c, g1) \<Rightarrow>
         case CreateIntCast c Int32Ty Int8Ty True g1 of (truncated_char, g2) \<Rightarrow>
         case get_current_tape_cell_ptr g2 of
           None \<Rightarrow> None
         | Some (tape_cell_ptr, g3) \<Rightarrow> Some (CreateStore truncated_char tape_cell_ptr g3))"
| "codegen (ConditionalGroupNode children) g =
     (case insert_block g of
        None \<Rightarrow> None
      | Some base_block \<Rightarrow>
          (case get_current_tape_value g of
             None \<Rightarrow> None
           | Some (v, g1) \<Rightarrow>
               (case CreateICmpNE v (ConstantInt Int8Ty 0) g1 of (start_condition, g2) \<Rightarrow>
                case BasicBlock_Create g2 of (group_content, g3) \<Rightarrow>
                case BasicBlock_Create g3 of (merge, g4) \<Rightarrow>
                case codegen_children children
                       (SetInsertPoint group_content
                          (CreateCondBr start_condition group_content merge g4)) of
                  None \<Rightarrow> None
                | Some g5 \<Rightarrow>
                    (case get_current_tape_value g5 of
                       None \<Rightarrow> None
                     | Some (v', g6) \<Rightarrow>
                         (case CreateICmpNE v' (ConstantInt Int8Ty 0) g6 of
                            (end_condition, g7) \<Rightarrow>
                              Some (SetInsertPoint merge
                                (CreateCondBr end_condition group_content merge g7)))))))"
| "codegen_children [] g = Some g"
| "codegen_children (child # children) g =
     (case codegen child g of
        None \<Rightarrow> None
      | Some g' \<Rightarrow> codegen_children children g')"

fun ProgramNode_codegen :: "program \<Rightarrow> gen \<Rightarrow> gen option" where
  "ProgramNode_codegen (ProgramNode children) g =
     (let g1 = g\<lparr>module_functions := module_functions g @ [(''main'', FunctionType VoidTy [])]\<rparr> in
      case BasicBlock_Create g1 of (main_block, g2) \<Rightarrow>
      case CreateAlloca Int64Ty (SetInsertPoint main_block g2) of (position, g3) \<Rightarrow>
      let g4 = CreateStore (ConstantInt Int64Ty 0) (Reg (fst position)) g3;
          g5 = g4\<lparr>named_values := (named_values g4)(''position'' \<mapsto> position)\<rparr> in
      case CreateAlloca (ArrayTy Int8Ty TAPE_SIZE) g5 of (tape, g6) \<Rightarrow>
      let g7 = CreateStore (ConstantAggregateZero (ArrayTy Int8Ty TAPE_SIZE)) (Reg (fst tape)) g6;
          g8 = g7\<lparr>named_values := (named_values g7)(''tape'' \<mapsto> tape)\<rparr> in
      case codegen_children children g8 of
        None \<Rightarrow> None
      | Some g9 \<Rightarrow> Some (CreateRet None g9))"

text \<open>
  What \<open>main\<close> does between reading the file and running the optimisation passes:
  parse, initialise the module and builder, generate code for the root.
\<close>

definition translate :: "char list \<Rightarrow> gen option" where
  "translate src = ProgramNode_codegen (fst (ProgramNode_try_parse src)) llvm_init"

section \<open>Execution of the emitted IR\<close>

text \<open>
  The meaning of the instructions above, following the LLVM language reference.  Integers
  are words of their width, so \<open>add\<close> and \<open>sub\<close> wrap around.  A pointer is the alloca it
  points into together with an element offset; \<open>getelementptr\<close> sign-extends its indices.
  Memory holds one object for each alloca; freshly allocated memory is uninitialised.
  A load or store outside the bounds of the object is undefined behaviour in LLVM and
  is the error \<open>OutOfBounds\<close> here.  \<open>getchar\<close> reads the next value of the input
  sequence, or \<open>EOF\<close> (-1) when it is exhausted; \<open>putchar\<close> appends its byte to the
  output.
\<close>

datatype val =
    VI1 bool
  | VI8 "8 word"
  | VI32 "32 word"
  | VI64 "64 word"
  | VPtr nat int
  | VZeroArray nat

datatype obj =
    ObjI64 "64 word option"
  | ObjArrI8 nat "int \<Rightarrow> 8 word option"

datatype exec_error = OutOfBounds | UndefValue | IllFormed

record mstate =
  regs :: "nat \<rightharpoonup> val"
  mem :: "nat \<rightharpoonup> obj"
  stdin :: "32 word list"
  stdout :: "8 word list"

fun eval_operand :: "mstate \<Rightarrow> operand \<Rightarrow> exec_error + val" where
  "eval_operand s (Reg r) = (case regs s r of None \<Rightarrow> Inl IllFormed | Some v \<Rightarrow> Inr v)"
| "eval_operand s (ConstantInt Int1Ty n) = Inr (VI1 (n mod 2 = 1))"
| "eval_operand s (ConstantInt Int8Ty n) = Inr (VI8 (word_of_int n))"
| "eval_operand s (ConstantInt Int32Ty n) = Inr (VI32 (word_of_int n))"
| "eval_operand s (ConstantInt Int64Ty n) = Inr (VI64 (word_of_int n))"
| "eval_operand s (ConstantInt _ n) = Inl IllFormed"
| "eval_operand s (ConstantAggregateZero (ArrayTy Int8Ty n)) = Inr (VZeroArray n)"
| "eval_operand s (ConstantAggregateZero _) = Inl IllFormed"

definition set_reg :: "nat \<Rightarrow> val \<Rightarrow> mstate \<Rightarrow> mstate" where
  "set_reg r v s = s\<lparr>regs := (regs s)(r \<mapsto> v)\<rparr>"

fun do_store :: "val \<Rightarrow> val \<Rightarrow> mstate \<Rightarrow> exec_error + mstate" where
  "do_store v (VPtr a off) s =
     (case (mem s a, v) of
        (Some (ObjI64 _), VI64 w) \<Rightarrow>
          if off = 0 then Inr (s\<lparr>mem := (mem s)(a \<mapsto> ObjI64 (Some w))\<rparr>) else Inl OutOfBounds
      | (Some (ObjArrI8 n cells), VI8 w) \<Rightarrow>
          if 0 \<le> off \<and> off < int n
          then Inr (s\<lparr>mem := (mem s)(a \<mapsto> ObjArrI8 n (cells(off := Some w)))\<rparr>)
          else Inl OutOfBounds
      | (Some (ObjArrI8 n cells), VZeroArray m) \<Rightarrow>
          if off = 0 \<and> m = n
          then Inr (s\<lparr>mem := (mem s)(a \<mapsto> ObjArrI8 n (\<lambda>_. Some 0))\<rparr>)
          else Inl OutOfBounds
      | _ \<Rightarrow> Inl IllFormed)"
| "do_store v _ s = Inl IllFormed"

fun do_load :: "ty \<Rightarrow> val \<Rightarrow> mstate \<Rightarrow> exec_error + val" where
  "do_load t (VPtr a off) s =
     (case (mem s a, t) of
        (Some (ObjI64 c), Int64Ty) \<Rightarrow>
          if off = 0 then (case c of None \<Rightarrow> Inl UndefValue | Some w \<Rightarrow> Inr (VI64 w))
          else Inl OutOfBounds
      | (Some (ObjArrI8 n cells), Int8Ty) \<Rightarrow>
          if 0 \<le> off \<and> off < int n
          then (case cells off of None \<Rightarrow> Inl UndefValue | Some w \<Rightarrow> Inr (VI8 w))
          else Inl OutOfBounds
      | _ \<Rightarrow> Inl IllFormed)"
| "do_load t _ s = Inl IllFormed"

fun do_gep :: "ty \<Rightarrow> val \<Rightarrow> val list \<Rightarrow> exec_error + val" where
  "do_gep (ArrayTy Int8Ty n) (VPtr a off) [VI8 i, VI64 j] =
     Inr (VPtr a (off + sint i * int n + sint j))"
| "do_gep _ _ _ = Inl IllFormed"

fun do_add :: "val \<Rightarrow> val \<Rightarrow> exec_error + val" where
  "do_add (VI8 a) (VI8 b) = Inr (VI8 (a + b))"
| "do_add (VI32 a) (VI32 b) = Inr (VI32 (a + b))"
| "do_add (VI64 a) (VI64 b) = Inr (VI64 (a + b))"
| "do_add _ _ = Inl IllFormed"

fun do_sub :: "val \<Rightarrow> val \<Rightarrow> exec_error + val" where
  "do_sub (VI8 a) (VI8 b) = Inr (VI8 (a - b))"
| "do_sub (VI32 a) (VI32 b) = Inr (VI32 (a - b))"
| "do_sub (VI64 a) (VI64 b) = Inr (VI64 (a - b))"
| "do_sub _ _ = Inl IllFormed"

fun do_icmp_ne :: "val \<Rightarrow> val \<Rightarrow> exec_error + val" where
  "do_icmp_ne (VI1 a) (VI1 b) = Inr (VI1 (a \<noteq> b))"
| "do_icmp_ne (VI8 a) (VI8 b) = Inr (VI1 (a \<noteq> b))"
| "do_icmp_ne (VI32 a) (VI32 b) = Inr (VI1 (a \<noteq> b))"
| "do_icmp_ne (VI64 a) (VI64 b) = Inr (VI1 (a \<noteq> b))"
| "do_icmp_ne _ _ = Inl IllFormed"

fun do_cast :: "cast_op \<Rightarrow> val \<Rightarrow> ty \<Rightarrow> exec_error + val" where
  "do_cast TruncOp (VI32 w) Int8Ty = Inr (VI8 (ucast w))"
| "do_cast TruncOp (VI64 w) Int8Ty = Inr (VI8 (ucast w))"
| "do_cast TruncOp (VI64 w) Int32Ty = Inr (VI32 (ucast w))"
| "do_cast ZExtOp (VI8 w) Int32Ty = Inr (VI32 (ucast w))"
| "do_cast ZExtOp (VI8 w) Int64Ty = Inr (VI64 (ucast w))"
| "do_cast ZExtOp (VI32 w) Int64Ty = Inr (VI64 (ucast w))"
| "do_cast SExtOp (VI8 w) Int32Ty = Inr (VI32 (scast w))"
| "do_cast SExtOp (VI8 w) Int64Ty = Inr (VI64 (scast w))"
| "do_cast SExtOp (VI32 w) Int64Ty = Inr (VI64 (scast w))"
| "do_cast _ _ _ = Inl IllFormed"

definition EOF :: "32 word" where
  "EOF = - 1"

fun do_call :: "nat \<Rightarrow> string \<Rightarrow> val list \<Rightarrow> mstate \<Rightarrow> exec_error + mstate" where
  "do_call r f args s =
     (if f = ''putchar'' then
        (case args of
           [VI8 w] \<Rightarrow> Inr (set_reg r (VI32 (ucast w)) (s\<lparr>stdout := stdout s @ [w]\<rparr>))
         | _ \<Rightarrow> Inl IllFormed)
      else if f = ''getchar'' then
        (case args of
           [] \<Rightarrow> (case stdin s of
                    [] \<Rightarrow> Inr (set_reg r (VI32 EOF) s)
                  | c # cs \<Rightarrow> Inr (set_reg r (VI32 c) (s\<lparr>stdin := cs\<rparr>)))
         | _ \<Rightarrow> Inl IllFormed)
      else Inl IllFormed)"

fun eval_operands :: "mstate \<Rightarrow> operand list \<Rightarrow> exec_error + val list" where
  "eval_operands s [] = Inr []"
| "eval_operands s (x # xs) =
     (case eval_operand s x of
        Inl e \<Rightarrow> Inl e
      | Inr v \<Rightarrow> (case eval_operands s xs of Inl e \<Rightarrow> Inl e | Inr vs \<Rightarrow> Inr (v # vs)))"

definition bind2 ::
  "mstate \<Rightarrow> operand \<Rightarrow> operand \<Rightarrow> (val \<Rightarrow> val \<Rightarrow> exec_error + 'a) \<Rightarrow> exec_error + 'a" where
  "bind2 s a b f =
     (case eval_operand s a of
        Inl e \<Rightarrow> Inl e
      | Inr x \<Rightarrow> (case eval_operand s b of Inl e \<Rightarrow> Inl e | Inr y \<Rightarrow> f x y))"

definition ret_reg :: "nat \<Rightarrow> mstate \<Rightarrow> exec_error + val \<Rightarrow> exec_error + mstate" where
  "ret_reg r s res = (case res of Inl e \<Rightarrow> Inl e | Inr v \<Rightarrow> Inr (set_reg r v s))"

fun exec_instr :: "instr \<Rightarrow> mstate \<Rightarrow> exec_error + mstate" where
  "exec_instr (Alloca r t) s =
     (case t of
        Int64Ty \<Rightarrow> Inr (set_reg r (VPtr r 0) (s\<lparr>mem := (mem s)(r \<mapsto> ObjI64 None)\<rparr>))
      | ArrayTy Int8Ty n \<Rightarrow>
          Inr (set_reg r (VPtr r 0) (s\<lparr>mem := (mem s)(r \<mapsto> ObjArrI8 n (\<lambda>_. None))\<rparr>))
      | _ \<Rightarrow> Inl IllFormed)"
| "exec_instr (Store v p) s = bind2 s v p (\<lambda>x y. do_store x y s)"
| "exec_instr (Load r t p) s =
     (case eval_operand s p of Inl e \<Rightarrow> Inl e | Inr x \<Rightarrow> ret_reg r s (do_load t x s))"
| "exec_instr (GEP r t p idxs) s =
     (case eval_operand s p of
        Inl e \<Rightarrow> Inl e
      | Inr x \<Rightarrow> (case eval_operands s idxs of
                    Inl e \<Rightarrow> Inl e
                  | Inr vs \<Rightarrow> ret_reg r s (do_gep t x vs)))"
| "exec_instr (Add r a b) s = ret_reg r s (bind2 s a b do_add)"
| "exec_instr (Sub r a b) s = ret_reg r s (bind2 s a b do_sub)"
| "exec_instr (ICmpNE r a b) s = ret_reg r s (bind2 s a b do_icmp_ne)"
| "exec_instr (Cast opc r v t) s =
     (case eval_operand s v of Inl e \<Rightarrow> Inl e | Inr x \<Rightarrow> ret_reg r s (do_cast opc x t))"
| "exec_instr (Call r ft f args) s =
     (case eval_operands s args of Inl e \<Rightarrow> Inl e | Inr vs \<Rightarrow> do_call r f vs s)"
| "exec_instr (CondBr c t f) s = Inl IllFormed"
| "exec_instr (Ret v) s = Inl IllFormed"

fun exec_instrs :: "instr list \<Rightarrow> mstate \<Rightarrow> exec_error + mstate" where
  "exec_instrs [] s = Inr s"
| "exec_instrs (i # is) s =
     (case exec_instr i s of Inl e \<Rightarrow> Inl e | Inr s' \<Rightarrow> exec_instrs is s')"

fun exec_block :: "instr list \<Rightarrow> mstate \<Rightarrow> exec_error + nat option \<times> mstate" where
  "exec_block [] s = Inl IllFormed"
| "exec_block (Ret v # is) s = (case v of None \<Rightarrow> Inr (None, s) | Some _ \<Rightarrow> Inl IllFormed)"
| "exec_block (CondBr c t f # is) s =
     (case eval_operand s c of
        Inr (VI1 b) \<Rightarrow> Inr (Some (if b then t else f), s)
      | Inr _ \<Rightarrow> Inl IllFormed
      | Inl e \<Rightarrow> Inl e)"
| "exec_block (i # is) s =
     (case exec_instr i s of Inl e \<Rightarrow> Inl e | Inr s' \<Rightarrow> exec_block is s')"

text \<open>
  A function is executed block by block, starting from block 0.  The generated code can
  loop forever, so the number of blocks that may be entered is bounded by a fuel argument;
  \<open>None\<close> means that the fuel ran out.
\<close>

fun run :: "nat \<Rightarrow> instr list list \<Rightarrow> nat \<Rightarrow> mstate \<Rightarrow> (exec_error + mstate) option" where
  "run 0 bs b s = None"
| "run (Suc fuel) bs b s =
     (if b < length bs then
        (case exec_block (bs ! b) s of
           Inl e \<Rightarrow> Some (Inl e)
         | Inr (None, s') \<Rightarrow> Some (Inr s')
         | Inr (Some b', s') \<Rightarrow> run fuel bs b' s')
      else Some (Inl IllFormed))"

definition initial_mstate :: "32 word list \<Rightarrow> mstate" where
  "initial_mstate inp = \<lparr>regs = Map.empty, mem = Map.empty, stdin = inp, stdout = []\<rparr>"

definition execute :: "nat \<Rightarrow> gen \<Rightarrow> 32 word list \<Rightarrow> (exec_error + mstate) option" where
  "execute fuel g inp = run fuel (blocks g) 0 (initial_mstate inp)"

section \<open>Auxiliary notions for the proofs\<close>

text \<open>
  The definitions from here on describe the output of code generation and the behaviour
  of the generated code; they are used to state and prove the properties below.
  \<open>advance k is g\<close> is \<open>g\<close> after \<open>k\<close> registers have been used and the instructions
  \<open>is\<close> have been appended at the insertion point.
\<close>

definition emit :: "instr list \<Rightarrow> gen \<Rightarrow> gen" where
  "emit is g =
     (case insert_block g of
        None \<Rightarrow> g
      | Some b \<Rightarrow> g\<lparr>blocks := (blocks g)[b := blocks g ! b @ is]\<rparr>)"

definition advance :: "nat \<Rightarrow> instr list \<Rightarrow> gen \<Rightarrow> gen" where
  "advance k is g = emit is (g\<lparr>next_reg := next_reg g + k\<rparr>)"

text \<open>
  The instruction sequences that the helpers and the leaf nodes emit when the next free
  register is \<open>r\<close> and \<open>pos\<close> and \<open>tp\<close> are the allocas of the position and the tape.
\<close>

definition cell_addr :: "nat \<Rightarrow> nat \<times> ty \<Rightarrow> nat \<times> ty \<Rightarrow> instr list" where
  "cell_addr r pos tp =
     [Load r (snd pos) (Reg (fst pos)),
      GEP (r + 1) (snd tp) (Reg (fst tp)) [ConstantInt Int8Ty 0, Reg r]]"

definition nonzero_test :: "nat \<Rightarrow> nat \<times> ty \<Rightarrow> nat \<times> ty \<Rightarrow> instr list" where
  "nonzero_test r pos tp =
     cell_addr r pos tp @
     [Load (r + 2) Int8Ty (Reg (r + 1)), ICmpNE (r + 3) (Reg (r + 2)) (ConstantInt Int8Ty 0)]"

definition leaf_code :: "node \<Rightarrow> nat \<Rightarrow> nat \<times> ty \<Rightarrow> nat \<times> ty \<Rightarrow> instr list" where
  "leaf_code n r pos tp =
     (case n of
        IncrementNode \<Rightarrow>
          cell_addr r pos tp @
          [Load (r + 2) Int8Ty (Reg (r + 1)), Add (r + 3) (Reg (r + 2)) (ConstantInt Int8Ty 1),
           Store (Reg (r + 3)) (Reg (r + 1))]
      | DecrementNode \<Rightarrow>
          cell_addr r pos tp @
          [Load (r + 2) Int8Ty (Reg (r + 1)), Sub (r + 3) (Reg (r + 2)) (ConstantInt Int8Ty 1),
           Store (Reg (r + 3)) (Reg (r + 1))]
      | MoveLeftNode \<Rightarrow>
          [Load r (snd pos) (Reg (fst pos)), Sub (r + 1) (Reg r) (ConstantInt Int64Ty 1),
           Store (Reg (r + 1)) (Reg (fst pos))]
      | MoveRightNode \<Rightarrow>
          [Load r (snd pos) (Reg (fst pos)), Add (r + 1) (Reg r) (ConstantInt Int64Ty 1),
           Store (Reg (r + 1)) (Reg (fst pos))]
      | PutCharNode \<Rightarrow>
          cell_addr r pos tp @
          [Load (r + 2) Int8Ty (Reg (r + 1)),
           Call (r + 3) (FunctionType Int32Ty [Int8Ty]) ''putchar'' [Reg (r + 2)]]
      | GetCharNode \<Rightarrow>
          [Call r (FunctionType Int32Ty []) ''getchar'' [], Cast TruncOp (r + 1) (Reg r) Int8Ty] @
          cell_addr (r + 2) pos tp @ [Store (Reg (r + 1)) (Reg (r + 3))]
      | ConditionalGroupNode _ \<Rightarrow> [])"

definition leaf_regs :: "node \<Rightarrow> nat" where
  "leaf_regs n = (if n = MoveLeftNode \<or> n = MoveRightNode then 2 else 4)"

definition leaf_decl :: "node \<Rightarrow> gen \<Rightarrow> gen" where
  "leaf_decl n g =
     (case n of
        PutCharNode \<Rightarrow> getOrInsertFunction ''putchar'' (FunctionType Int32Ty [Int8Ty]) g
      | GetCharNode \<Rightarrow> getOrInsertFunction ''getchar'' (FunctionType Int32Ty []) g
      | _ \<Rightarrow> g)"

text \<open>
  The non-zero test followed by the conditional branch, and the builder state on entry
  to a loop body and after the loop.
\<close>

definition loop_test :: "nat \<Rightarrow> nat \<times> ty \<Rightarrow> nat \<times> ty \<Rightarrow> nat \<Rightarrow> nat \<Rightarrow> instr list" where
  "loop_test r pos tp c m = nonzero_test r pos tp @ [CondBr (Reg (r + 3)) c m]"

definition enter_loop :: "gen \<Rightarrow> nat \<times> ty \<Rightarrow> nat \<times> ty \<Rightarrow> gen" where
  "enter_loop g pos tp =
     (let c = length (blocks g);
          g1 = advance 4 (loop_test (next_reg g) pos tp c (c + 1)) g
      in g1\<lparr>blocks := blocks g1 @ [[], []], insert_block := Some c\<rparr>)"

definition leave_loop :: "nat \<Rightarrow> gen \<Rightarrow> nat \<times> ty \<Rightarrow> nat \<times> ty \<Rightarrow> gen" where
  "leave_loop c g pos tp =
     (advance 4 (loop_test (next_reg g) pos tp c (c + 1)) g)\<lparr>insert_block := Some (c + 1)\<rparr>"

text \<open>
  The builder states in which nodes are translated: an insertion block is set, both
  variables are registered and their registers are in use.
\<close>

definition gen_ok :: "gen \<Rightarrow> nat \<times> ty \<Rightarrow> nat \<times> ty \<Rightarrow> bool" where
  "gen_ok g pos tp \<longleftrightarrow>
     (case insert_block g of None \<Rightarrow> False | Some b \<Rightarrow> b < length (blocks g)) \<and>
     named_values g ''position'' = Some pos \<and> named_values g ''tape'' = Some tp \<and>
     fst pos < next_reg g \<and> fst tp < next_reg g"

text \<open>
  \<open>extends g g'\<close>: code generation went from \<open>g\<close> to \<open>g'\<close> by appending to the
  insertion block of \<open>g\<close> and by adding new blocks; the new insertion block is the old one
  or a new block; no other block changed.
\<close>

definition extends :: "gen \<Rightarrow> gen \<Rightarrow> bool" where
  "extends g g' \<longleftrightarrow>
     (case insert_block g of
        None \<Rightarrow> False
      | Some b \<Rightarrow>
          (case insert_block g' of
             None \<Rightarrow> False
           | Some b' \<Rightarrow>
               length (blocks g) \<le> length (blocks g') \<and>
               b < length (blocks g) \<and> b' < length (blocks g') \<and>
               (b' = b \<or> length (blocks g) \<le> b') \<and>
               take (length (blocks g ! b)) (blocks g' ! b) = blocks g ! b \<and>
               (\<forall>i<length (blocks g). i \<noteq> b \<longrightarrow> blocks g' ! i = blocks g ! i))) \<and>
     named_values g' = named_values g \<and> next_reg g \<le> next_reg g'"

text \<open>
  The state of a running brainfuck program: pointer, tape, remaining input, output so far;
  and the effect of the six simple commands on it.  \<open>sim\<close> relates such a state to a state
  of the IR machine.
\<close>

datatype bf_state = BF (bf_ptr: "64 word") (bf_tape: "int \<Rightarrow> 8 word") (bf_in: "32 word list") (bf_out: "8 word list")

definition in_bounds :: "64 word \<Rightarrow> bool" where
  "in_bounds p \<longleftrightarrow> 0 \<le> sint p \<and> sint p < int TAPE_SIZE"

definition getchar_result :: "32 word list \<Rightarrow> 32 word" where
  "getchar_result cs = (case cs of [] \<Rightarrow> EOF | c # _ \<Rightarrow> c)"

fun bf_leaf :: "node \<Rightarrow> bf_state \<Rightarrow> exec_error + bf_state" where
  "bf_leaf IncrementNode (BF p t i out) =
     (if in_bounds p then Inr (BF p (t(sint p := t (sint p) + 1)) i out) else Inl OutOfBounds)"
| "bf_leaf DecrementNode (BF p t i out) =
     (if in_bounds p then Inr (BF p (t(sint p := t (sint p) - 1)) i out) else Inl OutOfBounds)"
| "bf_leaf MoveLeftNode (BF p t i out) = Inr (BF (p - 1) t i out)"
| "bf_leaf MoveRightNode (BF p t i out) = Inr (BF (p + 1) t i out)"
| "bf_leaf PutCharNode (BF p t i out) =
     (if in_bounds p then Inr (BF p t i (out @ [t (sint p)])) else Inl OutOfBounds)"
| "bf_leaf GetCharNode (BF p t i out) =
     (if in_bounds p then Inr (BF p (t(sint p := ucast (getchar_result i))) (tl i) out)
      else Inl OutOfBounds)"
| "bf_leaf (ConditionalGroupNode cs) a = Inl IllFormed"

definition sim :: "nat \<times> ty \<Rightarrow> nat \<times> ty \<Rightarrow> bf_state \<Rightarrow> mstate \<Rightarrow> bool" where
  "sim pos tp a s \<longleftrightarrow>
     snd pos = Int64Ty \<and> snd tp = ArrayTy Int8Ty TAPE_SIZE \<and> fst pos \<noteq> fst tp \<and>
     regs s (fst pos) = Some (VPtr (fst pos) 0) \<and>
     regs s (fst tp) = Some (VPtr (fst tp) 0) \<and>
     mem s (fst pos) = Some (ObjI64 (Some (bf_ptr a))) \<and>
     mem s (fst tp) = Some (ObjArrI8 TAPE_SIZE (\<lambda>i. Some (bf_tape a i))) \<and>
     stdin s = bf_in a \<and> stdout s = bf_out a"

definition cell_zero :: "bf_state \<Rightarrow> bool" where
  "cell_zero a \<longleftrightarrow> bf_tape a (sint (bf_ptr a)) = 0"

text \<open>
  Reference semantics of a tree, with fuel for the loops, shaped like the generated code:
  a loop tests the current cell, and its body runs until the test at its end fails.
\<close>

fun bf_node :: "nat \<Rightarrow> node \<Rightarrow> bf_state \<Rightarrow> (exec_error + bf_state) option"
  and bf_nodes :: "nat \<Rightarrow> node list \<Rightarrow> bf_state \<Rightarrow> (exec_error + bf_state) option"
  and bf_body :: "nat \<Rightarrow> node list \<Rightarrow> bf_state \<Rightarrow> (exec_error + bf_state) option"
where
  "bf_node f n a =
     (case n of
        ConditionalGroupNode cs \<Rightarrow>
          if \<not> in_bounds (bf_ptr a) then Some (Inl OutOfBounds)
          else if cell_zero a then Some (Inr a)
          else bf_body f cs a
      | _ \<Rightarrow> Some (bf_leaf n a))"
| "bf_nodes f [] a = Some (Inr a)"
| "bf_nodes f (n # ns) a =
     (case bf_node f n a of
        Some (Inr a') \<Rightarrow> bf_nodes f ns a'
      | r \<Rightarrow> r)"
| "bf_body 0 cs a = None"
| "bf_body (Suc f) cs a =
     (case bf_nodes f cs a of
        Some (Inr a') \<Rightarrow>
          if \<not> in_bounds (bf_ptr a') then Some (Inl OutOfBounds)
          else if cell_zero a' then Some (Inr a')
          else bf_body f cs a'
      | r \<Rightarrow> r)"

fun is_terminator :: "instr \<Rightarrow> bool" where
  "is_terminator (CondBr c t f) = True"
| "is_terminator (Ret v) = True"
| "is_terminator _ = False"

text \<open>
  \<open>cont fuel B code s\<close> runs the rest \<open>code\<close> of the current block and continues in the
  blocks \<open>B\<close>.  \<open>grows A B\<close>: every block of \<open>A\<close> is a prefix of the same block of \<open>B\<close>.
  \<open>tail_code g B\<close> is what block list \<open>B\<close> holds after the insertion point of \<open>g\<close>.
  \<open>reaches\<close> says that running \<open>code\<close> in state \<open>s\<close> ends in the given error, or arrives at
  \<open>code'\<close> in a state that represents the given brainfuck state.
\<close>

definition cont :: "nat \<Rightarrow> instr list list \<Rightarrow> instr list \<Rightarrow> mstate \<Rightarrow> (exec_error + mstate) option" where
  "cont fuel B code s =
     (case exec_block code s of
        Inl e \<Rightarrow> Some (Inl e)
      | Inr (None, s') \<Rightarrow> Some (Inr s')
      | Inr (Some b', s') \<Rightarrow> run fuel B b' s')"

definition grows :: "instr list list \<Rightarrow> instr list list \<Rightarrow> bool" where
  "grows A B \<longleftrightarrow>
     length A \<le> length B \<and> (\<forall>i<length A. take (length (A ! i)) (B ! i) = A ! i)"

definition tail_code :: "gen \<Rightarrow> instr list list \<Rightarrow> instr list" where
  "tail_code g B =
     (case insert_block g of None \<Rightarrow> [] | Some b \<Rightarrow> drop (length (blocks g ! b)) (B ! b))"

definition reaches ::
  "instr list list \<Rightarrow> nat \<times> ty \<Rightarrow> nat \<times> ty \<Rightarrow> instr list \<Rightarrow> mstate \<Rightarrow>
   exec_error + bf_state \<Rightarrow> instr list \<Rightarrow> bool" where
  "reaches B pos tp code s r code' \<longleftrightarrow>
     (case r of
        Inl e \<Rightarrow> \<exists>k. \<forall>F. cont (F + k) B code s = Some (Inl e)
      | Inr a' \<Rightarrow> \<exists>k s'. sim pos tp a' s' \<and> (\<forall>F. cont (F + k) B code s = cont F B code' s'))"

text \<open>
  The instructions that \<open>ProgramNode::codegen\<close> emits before it visits its children, the
  builder state at that point, and the machine state after executing them.
\<close>

definition prologue :: "instr list" where
  "prologue =
     [Alloca 0 Int64Ty, Store (ConstantInt Int64Ty 0) (Reg 0),
      Alloca 1 (ArrayTy Int8Ty TAPE_SIZE),
      Store (ConstantAggregateZero (ArrayTy Int8Ty TAPE_SIZE)) (Reg 1)]"

definition entry_state :: gen where
  "entry_state =
     \<lparr>module_functions = [(''main'', FunctionType VoidTy [])],
      blocks = [prologue],
      insert_block = Some 0,
      next_reg = 2,
      named_values = [''position'' \<mapsto> (0, Int64Ty), ''tape'' \<mapsto> (1, ArrayTy Int8Ty TAPE_SIZE)]\<rparr>"

definition entry_mstate :: "32 word list \<Rightarrow> mstate" where
  "entry_mstate i =
     \<lparr>regs = [0 \<mapsto> VPtr 0 0, 1 \<mapsto> VPtr 1 0],
      mem = [0 \<mapsto> ObjI64 (Some 0), 1 \<mapsto> ObjArrI8 TAPE_SIZE (\<lambda>_. Some 0)],
      stdin = i, stdout = []\<rparr>"

abbreviation POS :: "nat \<times> ty" where "POS \<equiv> (0, Int64Ty)"

abbreviation TP :: "nat \<times> ty" where "TP \<equiv> (1, ArrayTy Int8Ty TAPE_SIZE)"

text \<open>
  The result of executing, in machine state \<open>s\<close>, the instructions that the code
  generation of node \<open>n\<close> appends in builder state \<open>g\<close> (for the six simple nodes, whose
  code is a straight line).
\<close>

definition node_effect :: "gen \<Rightarrow> node \<Rightarrow> mstate \<Rightarrow> exec_error + mstate" where
  "node_effect g n s =
     (case codegen n g of
        None \<Rightarrow> Inl IllFormed
      | Some g' \<Rightarrow> exec_instrs (tail_code g (blocks g')) s)"

text \<open>
  A machine state whose pointer is -1, left of the tape.
\<close>

definition stray_mstate :: mstate where
  "stray_mstate =
     \<lparr>regs = [0 \<mapsto> VPtr 0 0, 1 \<mapsto> VPtr 1 0],
      mem = [0 \<mapsto> ObjI64 (Some (- 1)), 1 \<mapsto> ObjArrI8 TAPE_SIZE (\<lambda>_. Some 0)],
      stdin = [], stdout = []\<rparr>"

text \<open>
  The simple commands are the six nodes other than the loop.  \<open>straight_code ns r pos tp\<close> is
  the concatenation, in the order of \<open>ns\<close>, of the instruction sequences of simple commands,
  the first one starting at register \<open>r\<close>.
\<close>

definition is_leaf :: "node \<Rightarrow> bool" where
  "is_leaf n = (case n of ConditionalGroupNode cs \<Rightarrow> False | _ \<Rightarrow> True)"

fun straight_code :: "node list \<Rightarrow> nat \<Rightarrow> nat \<times> ty \<Rightarrow> nat \<times> ty \<Rightarrow> instr list" where
  "straight_code [] r pos tp = []"
| "straight_code (n # ns) r pos tp =
     leaf_code n r pos tp @ straight_code ns (r + leaf_regs n) pos tp"

text \<open>
  A machine state at pointer 0 whose cell 0 holds 1.
\<close>

definition one_mstate :: mstate where
  "one_mstate =
     \<lparr>regs = [0 \<mapsto> VPtr 0 0, 1 \<mapsto> VPtr 1 0],
      mem = [0 \<mapsto> ObjI64 (Some 0),
             1 \<mapsto> ObjArrI8 TAPE_SIZE (\<lambda>i. Some (((\<lambda>_. 0)(0 := 1)) i))],
      stdin = [], stdout = []\<rparr>"

section \<open>Properties of the parser\<close>

lemma extract_char_nonspace: "\<not> isspace c \<Longrightarrow> extract_char (c # s) = Some (c, s)"
  by (simp add: extract_char_def)

lemma extract_char_space: "isspace c \<Longrightarrow> extract_char (c # s) = extract_char s"
  by (simp add: extract_char_def)

lemma extract_char_Nil: "extract_char [] = None"
  by (simp add: extract_char_def)

lemma command_not_space: "is_command c \<Longrightarrow> \<not> isspace c"
  by (auto simp: is_command_def isspace_def)

lemma Node_try_parse_Nil: "Node_try_parse [] = (None, [])"
  by (simp add: Node_try_parse.simps extract_char_Nil)

lemma scope_loop_Nil: "scope_loop children [] = (children, [])"
  by (simp add: scope_loop.simps Node_try_parse_Nil)

lemma Node_try_parse_close: "Node_try_parse (CHR '']'' # rest) = (None, rest)"
  by (simp add: Node_try_parse.simps extract_char_nonspace isspace_def)

lemma scope_loop_close: "scope_loop children (CHR '']'' # rest) = (children, rest)"
  by (simp add: scope_loop.simps Node_try_parse_close)

lemma Node_try_parse_open:
  "Node_try_parse (CHR ''['' # s) =
     (Some (ConditionalGroupNode (fst (scope_loop [] s))), snd (scope_loop [] s))"
  by (simp add: Node_try_parse.simps[of "CHR ''['' # s"] extract_char_nonspace isspace_def
      ConditionalGroupNode_try_parse.simps split: prod.splits)

lemma Node_try_parse_group:
  "Node_try_parse (CHR ''['' # s) =
     (case ConditionalGroupNode_try_parse s of (n, rest) \<Rightarrow> (Some n, rest))"
  by (simp add: Node_try_parse.simps[of "CHR ''['' # s"] extract_char_nonspace isspace_def)

lemma scope_loop_Some:
  "Node_try_parse s = (Some n, rest) \<Longrightarrow> scope_loop children s = scope_loop (children @ [n]) rest"
  by (simp add: scope_loop.simps[of children s])

lemma Node_try_parse_leaf:
  "Node_try_parse (CHR ''+'' # rest) = (Some IncrementNode, rest)"
  "Node_try_parse (CHR ''-'' # rest) = (Some DecrementNode, rest)"
  "Node_try_parse (CHR ''<'' # rest) = (Some MoveLeftNode, rest)"
  "Node_try_parse (CHR ''>'' # rest) = (Some MoveRightNode, rest)"
  "Node_try_parse (CHR ''.'' # rest) = (Some PutCharNode, rest)"
  "Node_try_parse (CHR '','' # rest) = (Some GetCharNode, rest)"
  by (simp_all add: Node_try_parse.simps extract_char_nonspace isspace_def)

lemma scope_loop_printed_aux:
  assumes "\<And>n rest. n \<in> set ns \<Longrightarrow> Node_try_parse (debug_print n @ rest) = (Some n, rest)"
  shows "scope_loop children (concat (map debug_print ns) @ rest) = scope_loop (children @ ns) rest"
  using assms
proof (induction ns arbitrary: children)
  case Nil
  show ?case by simp
next
  case (Cons n ns)
  have "Node_try_parse (debug_print n @ concat (map debug_print ns) @ rest)
          = (Some n, concat (map debug_print ns) @ rest)"
    using Cons.prems by simp
  then have "scope_loop children (concat (map debug_print (n # ns)) @ rest)
          = scope_loop (children @ [n]) (concat (map debug_print ns) @ rest)"
    by (simp add: scope_loop_Some)
  also have "\<dots> = scope_loop ((children @ [n]) @ ns) rest"
    using Cons.prems by (intro Cons.IH) simp
  finally show ?case by simp
qed

lemma Node_try_parse_printed:
  "Node_try_parse (debug_print n @ rest) = (Some n, rest)"
proof (induction n arbitrary: rest)
  case (ConditionalGroupNode children)
  have "scope_loop [] (concat (map debug_print children) @ CHR '']'' # rest) = (children, rest)"
    using scope_loop_printed_aux[of children "[]" "CHR '']'' # rest"] ConditionalGroupNode
    by (simp add: scope_loop_close)
  then show ?case by (simp add: Node_try_parse_open)
qed (simp_all add: Node_try_parse_leaf)

lemma scope_loop_printed:
  "scope_loop children (concat (map debug_print ns) @ rest) = scope_loop (children @ ns) rest"
  by (rule scope_loop_printed_aux) (rule Node_try_parse_printed)

lemma ProgramNode_try_parse_printed:
  "ProgramNode_try_parse (concat (map debug_print ns)) = (ProgramNode ns, [])"
  using scope_loop_printed[of "[]" ns "[]"]
  by (simp add: ProgramNode_try_parse_def scope_loop_Nil)

lemma scope_loop_unclosed:
  "scope_loop children (unclosed_text ls) = (children @ unclosed_tree ls, [])"
proof (induction ls arbitrary: children)
  case Nil
  show ?case by (simp add: scope_loop_Nil)
next
  case (Cons l ls)
  have inner: "scope_loop [] (concat (map debug_print l) @ unclosed_text ls)
                 = (l @ unclosed_tree ls, [])"
    using scope_loop_printed[of "[]" l "unclosed_text ls"] Cons.IH[of l] by simp
  have "Node_try_parse (unclosed_text (l # ls))
          = (Some (ConditionalGroupNode (l @ unclosed_tree ls)), [])"
    by (simp add: Node_try_parse_open inner)
  then show ?case
    by (simp add: scope_loop_Some scope_loop_Nil del: unclosed_text.simps)
qed

lemma filter_spaces: "extract_char s = None \<Longrightarrow> filter is_command s = []"
proof -
  assume "extract_char s = None"
  then have "dropWhile isspace s = []"
    by (simp add: extract_char_def split: list.splits)
  then have "\<forall>c\<in>set s. isspace c" by (simp add: dropWhile_eq_Nil_conv)
  then show ?thesis using command_not_space by (auto simp: filter_empty_conv)
qed

lemma filter_extract:
  assumes "extract_char s = Some (c, rest)"
  shows "filter is_command s = filter is_command (c # rest)"
proof -
  from assms have d: "dropWhile isspace s = c # rest"
    by (simp add: extract_char_def split: list.splits)
  have "s = takeWhile isspace s @ dropWhile isspace s" by simp
  then have "filter is_command s
      = filter is_command (takeWhile isspace s) @ filter is_command (c # rest)"
    using d by (metis filter_append)
  moreover have "filter is_command (takeWhile isspace s) = []"
    using command_not_space by (auto simp: filter_empty_conv dest: set_takeWhileD)
  ultimately show ?thesis by simp
qed

lemma parse_filter:
  "Node_try_parse (filter is_command s) = apsnd (filter is_command) (Node_try_parse s)"
  "ConditionalGroupNode_try_parse (filter is_command s1)
     = apsnd (filter is_command) (ConditionalGroupNode_try_parse s1)"
  "scope_loop children (filter is_command s2)
     = apsnd (filter is_command) (scope_loop children s2)"
proof (induction s and s1 and children s2
    rule: Node_try_parse_ConditionalGroupNode_try_parse_scope_loop.induct)
  case (1 s)
  show ?case
  proof (cases "extract_char s")
    case None
    then show ?thesis
      by (simp add: filter_spaces Node_try_parse_Nil Node_try_parse.simps[of s])
  next
    case (Some p)
    obtain c rest where p: "p = (c, rest)" by (cases p)
    note ex = Some[unfolded p]
    note flt = filter_extract[OF ex]
    show ?thesis
    proof (cases "is_command c")
      case True
      then have ns: "\<not> isspace c" by (rule command_not_space)
      have f: "filter is_command s = c # filter is_command rest"
        using flt True by simp
      consider "c = CHR ''+''" | "c = CHR ''-''" | "c = CHR ''<''" | "c = CHR ''>''"
        | "c = CHR ''.''" | "c = CHR '',''" | "c = CHR ''[''" | "c = CHR '']''"
        using True by (auto simp: is_command_def)
      then show ?thesis
      proof cases
        case 7
        have "ConditionalGroupNode_try_parse (filter is_command rest)
              = apsnd (filter is_command) (ConditionalGroupNode_try_parse rest)"
          using 1(1)[OF Some p[symmetric]] 7 by simp
        then show ?thesis
          using 7 f ex
          by (simp add: Node_try_parse.simps[of s] Node_try_parse_group split: prod.splits)
      qed (simp_all add: f ex Node_try_parse.simps[of s] Node_try_parse_leaf
            Node_try_parse_close)
    next
      case False
      then have ne: "c \<noteq> CHR ''+''" "c \<noteq> CHR ''-''" "c \<noteq> CHR ''<''" "c \<noteq> CHR ''>''"
        "c \<noteq> CHR ''.''" "c \<noteq> CHR '',''" "c \<noteq> CHR ''[''" "c \<noteq> CHR '']''"
        by (auto simp: is_command_def)
      have "Node_try_parse (filter is_command rest)
              = apsnd (filter is_command) (Node_try_parse rest)"
        using 1(2)[OF Some p[symmetric]] ne by simp
      moreover have "filter is_command s = filter is_command rest"
        using flt False by simp
      moreover have "Node_try_parse s = Node_try_parse rest"
        using ex ne by (simp add: Node_try_parse.simps[of s])
      ultimately show ?thesis by simp
    qed
  qed
next
  case (2 s)
  then show ?case
    by (simp add: ConditionalGroupNode_try_parse.simps split: prod.splits)
next
  case (3 children s)
  show ?case
  proof (cases "Node_try_parse s")
    case (Pair r rest)
    show ?thesis
    proof (cases r)
      case None
      then show ?thesis using 3(1) Pair
        by (simp add: scope_loop.simps[of children s]
            scope_loop.simps[of children "filter is_command s"])
    next
      case (Some n)
      then show ?thesis using 3(1) Pair 3(2)[OF Pair[symmetric] Some]
        by (simp add: scope_loop.simps[of children s]
            scope_loop.simps[of children "filter is_command s"])
    qed
  qed
qed

lemma insert_filler_filter:
  "insert_filler s t \<Longrightarrow> filter is_command t = filter is_command s"
  by (induction rule: insert_filler.induct) simp_all

text \<open>
  C3: the parser never rejects malformed bracket nesting.  When the stream ends inside open
  \<open>[\<close>-scopes (any number \<open>ls\<close> of them, each with the children collected so far), every
  one of them is closed and becomes a loop node.  A stray \<open>]\<close> ends the scope that is
  open: at top level the program consists of the instructions before it, and whatever
  follows stays unread.  The result is always a program; there is no error value.
\<close>

theorem unmatched_brackets_accepted:
  "ProgramNode_try_parse (concat (map debug_print ns) @ unclosed_text ls)
     = (ProgramNode (ns @ unclosed_tree ls), [])
   \<and> ProgramNode_try_parse (concat (map debug_print ns) @ CHR '']'' # rest)
     = (ProgramNode ns, rest)
   \<and> scope_loop children (concat (map debug_print ns) @ CHR '']'' # rest)
     = (children @ ns, rest)
   \<and> scope_loop children [] = (children, [])"
proof -
  have "scope_loop [] (concat (map debug_print ns) @ unclosed_text ls)
          = (ns @ unclosed_tree ls, [])"
    using scope_loop_printed[of "[]" ns "unclosed_text ls"] scope_loop_unclosed[of ns ls]
    by simp
  moreover have "scope_loop cs (concat (map debug_print ns) @ CHR '']'' # rest)
          = (cs @ ns, rest)" for cs
    using scope_loop_printed[of cs ns "CHR '']'' # rest"] by (simp add: scope_loop_close)
  ultimately show ?thesis
    by (simp add: ProgramNode_try_parse_def scope_loop_Nil)
qed

text \<open>
  C6: printing a parsed program with \<open>debug_print\<close> and parsing the output again gives
  the same tree, for every input.
\<close>

theorem debug_print_round_trip:
  "fst (ProgramNode_try_parse (ProgramNode_debug_print (fst (ProgramNode_try_parse s))))
     = fst (ProgramNode_try_parse s)"
proof -
  obtain ns where ns: "fst (ProgramNode_try_parse s) = ProgramNode ns"
    by (cases "fst (ProgramNode_try_parse s)")
  show ?thesis by (simp add: ns ProgramNode_try_parse_printed)
qed

text \<open>
  C7: inserting characters other than the eight command characters anywhere into an input
  does not change the parsed program.
\<close>

theorem comment_transparency:
  assumes "insert_filler s t"
  shows "fst (ProgramNode_try_parse t) = fst (ProgramNode_try_parse s)"
proof -
  have "fst (ProgramNode_try_parse u) = fst (ProgramNode_try_parse (filter is_command u))" for u
    by (simp add: ProgramNode_try_parse_def parse_filter(3) split: prod.splits)
  then show ?thesis using insert_filler_filter[OF assms] by metis
qed

theorem comment_transparency_witness:
  "insert_filler ''+[-]'' ''a+ [x-]y''
   \<and> fst (ProgramNode_try_parse ''a+ [x-]y'') = fst (ProgramNode_try_parse ''+[-]'')"
proof -
  have h: "insert_filler ''+[-]'' ''a+ [x-]y''"
    by (intro filler_ins filler_keep filler_nil) (simp_all add: is_command_def)
  show ?thesis using h comment_transparency[OF h] by simp
qed

lemma emit_Nil: "emit [] g = g"
  by (cases "insert_block g") (simp_all add: emit_def)

lemma emit_emit: "emit ys (emit xs g) = emit (xs @ ys) g"
proof (cases "insert_block g")
  case None
  then show ?thesis by (simp add: emit_def)
next
  case (Some b)
  then show ?thesis
    by (cases "b < length (blocks g)") (simp_all add: emit_def list_update_beyond)
qed

lemma emit_fields:
  "insert_block (emit is g) = insert_block g"
  "next_reg (emit is g) = next_reg g"
  "named_values (emit is g) = named_values g"
  "module_functions (emit is g) = module_functions g"
  "length (blocks (emit is g)) = length (blocks g)"
  by (simp_all add: emit_def split: option.splits)

lemma advance_fields:
  "insert_block (advance k is g) = insert_block g"
  "next_reg (advance k is g) = next_reg g + k"
  "named_values (advance k is g) = named_values g"
  "module_functions (advance k is g) = module_functions g"
  "length (blocks (advance k is g)) = length (blocks g)"
  by (simp_all add: advance_def emit_def split: option.splits)

lemma advance_advance:
  "advance k ys (advance j xs g) = advance (j + k) (xs @ ys) g"
  by (cases "insert_block g"; cases "the (insert_block g) < length (blocks g)")
     (simp_all add: advance_def emit_def add.assoc list_update_beyond split: option.splits)

lemma advance_0: "advance 0 [] g = g"
  by (simp add: advance_def emit_Nil)

lemma Insert_advance: "Insert i g = advance 0 [i] g"
  by (simp add: Insert_def advance_def emit_def)

lemma fresh_Insert: 
  "(case fresh g of (r, g') \<Rightarrow> f r (Insert (i r) g')) = f (next_reg g) (advance 1 [i (next_reg g)] g)"
  by (simp add: fresh_def Insert_def advance_def emit_def split: option.splits)

lemma Create_advance:
  "CreateLoad t p g = (Reg (next_reg g), advance 1 [Load (next_reg g) t p] g)"
  "CreateGEP t p idxs g = (Reg (next_reg g), advance 1 [GEP (next_reg g) t p idxs] g)"
  "CreateAdd a b g = (Reg (next_reg g), advance 1 [Add (next_reg g) a b] g)"
  "CreateSub a b g = (Reg (next_reg g), advance 1 [Sub (next_reg g) a b] g)"
  "CreateICmpNE a b g = (Reg (next_reg g), advance 1 [ICmpNE (next_reg g) a b] g)"
  "CreateCall ft f args g = (Reg (next_reg g), advance 1 [Call (next_reg g) ft f args] g)"
  "CreateAlloca t g = ((next_reg g, t), advance 1 [Alloca (next_reg g) t] g)"
  "CreateStore v p g = advance 0 [Store v p] g"
  "CreateCondBr c x y g = advance 0 [CondBr c x y] g"
  "CreateRet rv g = advance 0 [Ret rv] g"
  by (simp_all add: CreateLoad_def CreateGEP_def CreateAdd_def CreateSub_def CreateICmpNE_def
      CreateCall_def CreateAlloca_def CreateStore_def CreateCondBr_def CreateRet_def
      fresh_def Insert_def advance_def emit_def split: option.splits)

lemma CreateIntCast_trunc:
  "CreateIntCast v Int32Ty Int8Ty sg g =
     (Reg (next_reg g), advance 1 [Cast TruncOp (next_reg g) v Int8Ty] g)"
  by (simp add: CreateIntCast_def fresh_def Insert_def advance_def emit_def split: option.splits)

lemma get_current_tape_cell_ptr_advance:
  assumes "named_values g ''position'' = Some pos" "named_values g ''tape'' = Some tp"
  shows "get_current_tape_cell_ptr g =
           Some (Reg (next_reg g + 1), advance 2 (cell_addr (next_reg g) pos tp) g)"
  using assms
  by (cases pos; cases tp)
     (simp add: get_current_tape_cell_ptr_def get_current_position_def Create_advance
       advance_fields advance_advance cell_addr_def eval_nat_numeral)

lemma get_current_tape_value_advance:
  assumes "named_values g ''position'' = Some pos" "named_values g ''tape'' = Some tp"
  shows "get_current_tape_value g =
           Some (Reg (next_reg g + 2),
                 advance 3 (cell_addr (next_reg g) pos tp @
                            [Load (next_reg g + 2) Int8Ty (Reg (next_reg g + 1))]) g)"
  using assms
  by (simp add: get_current_tape_value_def get_current_tape_cell_ptr_advance Create_advance
       advance_fields advance_advance eval_nat_numeral)

lemma getOrInsertFunction_fields:
  "insert_block (getOrInsertFunction f ft g) = insert_block g"
  "next_reg (getOrInsertFunction f ft g) = next_reg g"
  "named_values (getOrInsertFunction f ft g) = named_values g"
  "blocks (getOrInsertFunction f ft g) = blocks g"
  by (simp_all add: getOrInsertFunction_def)

lemma codegen_leaf:
  assumes "named_values g ''position'' = Some pos" "named_values g ''tape'' = Some tp"
    and "\<forall>cs. n \<noteq> ConditionalGroupNode cs"
  shows "codegen n g = Some (advance (leaf_regs n) (leaf_code n (next_reg g) pos tp) (leaf_decl n g))"
proof (cases n)
  case IncrementNode
  then show ?thesis using assms(1,2)
    by (simp add: get_current_tape_cell_ptr_advance Create_advance advance_fields
        advance_advance leaf_code_def leaf_decl_def leaf_regs_def eval_nat_numeral)
next
  case DecrementNode
  then show ?thesis using assms(1,2)
    by (simp add: get_current_tape_cell_ptr_advance Create_advance advance_fields
        advance_advance leaf_code_def leaf_decl_def leaf_regs_def eval_nat_numeral)
next
  case MoveLeftNode
  then show ?thesis using assms(1,2)
    by (cases pos) (simp add: Create_advance advance_fields
        advance_advance leaf_code_def leaf_decl_def leaf_regs_def eval_nat_numeral)
next
  case MoveRightNode
  then show ?thesis using assms(1,2)
    by (cases pos) (simp add: Create_advance advance_fields
        advance_advance leaf_code_def leaf_decl_def leaf_regs_def eval_nat_numeral)
next
  case PutCharNode
  then show ?thesis using assms(1,2)
    by (simp add: Let_def get_current_tape_value_advance Create_advance advance_fields
        getOrInsertFunction_fields advance_advance leaf_code_def leaf_decl_def leaf_regs_def eval_nat_numeral)
next
  case GetCharNode
  then show ?thesis using assms(1,2)
    by (simp add: Let_def get_current_tape_cell_ptr_advance Create_advance CreateIntCast_trunc
        advance_fields getOrInsertFunction_fields advance_advance leaf_code_def leaf_decl_def leaf_regs_def eval_nat_numeral)
next
  case (ConditionalGroupNode cs)
  then show ?thesis using assms(3) by simp
qed

lemma codegen_loop_enter:
  assumes "gen_ok g pos tp"
  shows "codegen (ConditionalGroupNode cs) g =
           (case codegen_children cs (enter_loop g pos tp) of
              None \<Rightarrow> None
            | Some g5 \<Rightarrow>
                (case get_current_tape_value g5 of
                   None \<Rightarrow> None
                 | Some (v', g6) \<Rightarrow>
                     (case CreateICmpNE v' (ConstantInt Int8Ty 0) g6 of
                        (end_condition, g7) \<Rightarrow>
                          Some (SetInsertPoint (length (blocks g) + 1)
                            (CreateCondBr end_condition (length (blocks g))
                               (length (blocks g) + 1) g7)))))"
proof -
  from assms obtain b where b: "insert_block g = Some b" "b < length (blocks g)"
    and nv: "named_values g ''position'' = Some pos" "named_values g ''tape'' = Some tp"
    by (auto simp: gen_ok_def split: option.splits)
  let ?c = "length (blocks g)"
  let ?r = "next_reg g"
  let ?g2 = "advance 4 (nonzero_test ?r pos tp) g"
  have g2: "(case get_current_tape_value g of None \<Rightarrow> None
             | Some (v, g1) \<Rightarrow> (case CreateICmpNE v (ConstantInt Int8Ty 0) g1 of (sc, g2) \<Rightarrow> F sc g2))
            = F (Reg (?r + 3)) ?g2" for F :: "operand \<Rightarrow> gen \<Rightarrow> gen option"
    using nv
    by (simp add: get_current_tape_value_advance Create_advance advance_fields advance_advance
        nonzero_test_def eval_nat_numeral)
  have e: "SetInsertPoint ?c (CreateCondBr (Reg (?r + 3)) ?c (?c + 1)
             (?g2\<lparr>blocks := blocks ?g2 @ [[]]\<rparr>\<lparr>blocks := blocks ?g2 @ [[]] @ [[]]\<rparr>))
           = enter_loop g pos tp"
    using b
    by (simp add: SetInsertPoint_def Create_advance advance_def emit_def enter_loop_def Let_def
        loop_test_def list_update_append nth_append)
  show ?thesis
    using b(1)
    by (simp add: g2 BasicBlock_Create_def advance_fields e[simplified] cong: option.case_cong)
qed

lemma take_prefix_iff: "take (length xs) ys = xs \<longleftrightarrow> (\<exists>zs. ys = xs @ zs)"
  by (metis append_eq_conv_conj append_take_drop_id)

lemma extendsI:
  assumes "insert_block g = Some b" "insert_block g' = Some b'"
    and "length (blocks g) \<le> length (blocks g')" "b < length (blocks g)"
    and "b' < length (blocks g')" "b' = b \<or> length (blocks g) \<le> b'"
    and "blocks g' ! b = blocks g ! b @ zs"
    and "\<And>i. i < length (blocks g) \<Longrightarrow> i \<noteq> b \<Longrightarrow> blocks g' ! i = blocks g ! i"
    and "named_values g' = named_values g" "next_reg g \<le> next_reg g'"
  shows "extends g g'"
  using assms by (simp add: extends_def)

lemma extendsE:
  assumes "extends g g'"
  obtains b b' zs where "insert_block g = Some b" "insert_block g' = Some b'"
    and "length (blocks g) \<le> length (blocks g')" "b < length (blocks g)"
    and "b' < length (blocks g')" "b' = b \<or> length (blocks g) \<le> b'"
    and "blocks g' ! b = blocks g ! b @ zs"
    and "\<And>i. i < length (blocks g) \<Longrightarrow> i \<noteq> b \<Longrightarrow> blocks g' ! i = blocks g ! i"
    and "named_values g' = named_values g" "next_reg g \<le> next_reg g'"
proof -
  from assms obtain b b' where bb: "insert_block g = Some b" "insert_block g' = Some b'"
    by (auto simp: extends_def split: option.splits)
  with assms have *: "length (blocks g) \<le> length (blocks g')" "b < length (blocks g)"
      "b' < length (blocks g')" "b' = b \<or> length (blocks g) \<le> b'"
      "take (length (blocks g ! b)) (blocks g' ! b) = blocks g ! b"
      "\<And>i. i < length (blocks g) \<Longrightarrow> i \<noteq> b \<Longrightarrow> blocks g' ! i = blocks g ! i"
      "named_values g' = named_values g" "next_reg g \<le> next_reg g'"
    by (simp_all add: extends_def)
  from *(5) obtain zs where "blocks g' ! b = blocks g ! b @ zs"
    using take_prefix_iff by blast
  with bb * show ?thesis using that by blast
qed

lemma gen_okE:
  assumes "gen_ok g pos tp"
  obtains b where "insert_block g = Some b" "b < length (blocks g)"
    and "named_values g ''position'' = Some pos" "named_values g ''tape'' = Some tp"
    and "fst pos < next_reg g" "fst tp < next_reg g"
  using assms by (auto simp: gen_ok_def split: option.splits)

lemma extends_refl:
  assumes "gen_ok g pos tp"
  shows "extends g g"
proof -
  from assms obtain b where b: "insert_block g = Some b" "b < length (blocks g)"
    by (rule gen_okE)
  show ?thesis
    by (rule extendsI[OF b(1) b(1), where zs = "[]"]) (simp_all add: b)
qed

lemma extends_trans:
  assumes "extends g g'" "extends g' g''"
  shows "extends g g''"
proof -
  from assms(1) obtain b b' zs where 1: "insert_block g = Some b" "insert_block g' = Some b'"
    "length (blocks g) \<le> length (blocks g')" "b < length (blocks g)"
    "b' < length (blocks g')" "b' = b \<or> length (blocks g) \<le> b'"
    "blocks g' ! b = blocks g ! b @ zs"
    "\<And>i. i < length (blocks g) \<Longrightarrow> i \<noteq> b \<Longrightarrow> blocks g' ! i = blocks g ! i"
    "named_values g' = named_values g" "next_reg g \<le> next_reg g'"
    by (rule extendsE) blast
  from assms(2) obtain c c' ys where 2: "insert_block g' = Some c" "insert_block g'' = Some c'"
    "length (blocks g') \<le> length (blocks g'')" "c < length (blocks g')"
    "c' < length (blocks g'')" "c' = c \<or> length (blocks g') \<le> c'"
    "blocks g'' ! c = blocks g' ! c @ ys"
    "\<And>i. i < length (blocks g') \<Longrightarrow> i \<noteq> c \<Longrightarrow> blocks g'' ! i = blocks g' ! i"
    "named_values g'' = named_values g'" "next_reg g' \<le> next_reg g''"
    by (rule extendsE) blast
  have c: "c = b'" using 1(2) 2(1) by simp
  have pre: "\<exists>ws. blocks g'' ! b = blocks g ! b @ ws"
  proof (cases "b' = b")
    case True
    then show ?thesis using 1(7) 2(7) c by simp
  next
    case False
    then have "blocks g'' ! b = blocks g' ! b" using 2(8)[of b] 1(3,4) c by simp
    then show ?thesis using 1(7) by simp
  qed
  then obtain ws where ws: "blocks g'' ! b = blocks g ! b @ ws" ..
  show ?thesis
  proof (rule extendsI[OF 1(1) 2(2) _ 1(4) 2(5) _ ws])
    show "length (blocks g) \<le> length (blocks g'')" using 1(3) 2(3) by simp
    show "c' = b \<or> length (blocks g) \<le> c'" using 1(3,6) 2(6) c by auto
    show "blocks g'' ! i = blocks g ! i" if "i < length (blocks g)" "i \<noteq> b" for i
    proof -
      have "i \<noteq> b'" using that 1(6) by auto
      then have "blocks g'' ! i = blocks g' ! i" using 2(8)[of i] that(1) 1(3) c by simp
      then show ?thesis using 1(8)[OF that] by simp
    qed
    show "named_values g'' = named_values g" using 1(9) 2(9) by simp
    show "next_reg g \<le> next_reg g''" using 1(10) 2(10) by simp
  qed
qed

lemma blocks_advance:
  "insert_block g = Some b \<Longrightarrow>
   blocks (advance k code g) = (blocks g)[b := blocks g ! b @ code]"
  by (simp add: advance_def emit_def)

lemma extends_advance:
  assumes "gen_ok g pos tp"
  shows "extends g (advance k code g)" "gen_ok (advance k code g) pos tp"
proof -
  from assms obtain b where b: "insert_block g = Some b" "b < length (blocks g)"
    and nv: "named_values g ''position'' = Some pos" "named_values g ''tape'' = Some tp"
      "fst pos < next_reg g" "fst tp < next_reg g"
    by (rule gen_okE)
  show "extends g (advance k code g)"
    by (rule extendsI[OF b(1), where b' = b and zs = code])
       (simp_all add: advance_fields b blocks_advance)
  show "gen_ok (advance k code g) pos tp"
    using b nv by (simp add: gen_ok_def advance_fields)
qed

lemma leaf_decl_fields:
  "insert_block (leaf_decl n g) = insert_block g"
  "next_reg (leaf_decl n g) = next_reg g"
  "named_values (leaf_decl n g) = named_values g"
  "blocks (leaf_decl n g) = blocks g"
  by (simp_all add: leaf_decl_def getOrInsertFunction_fields split: node.splits)

lemma gen_ok_leaf_decl: "gen_ok g pos tp \<Longrightarrow> gen_ok (leaf_decl n g) pos tp"
  by (auto simp: gen_ok_def leaf_decl_fields split: option.splits)

lemma extends_leaf_decl:
  assumes "gen_ok g pos tp"
  shows "extends g (leaf_decl n g)"
proof -
  from assms obtain b where b: "insert_block g = Some b" "b < length (blocks g)"
    by (rule gen_okE)
  show ?thesis
    by (rule extendsI[OF b(1), where b' = b and zs = "[]"]) (simp_all add: b leaf_decl_fields)
qed

lemma blocks_enter_loop:
  "insert_block g = Some b \<Longrightarrow> b < length (blocks g) \<Longrightarrow>
   blocks (enter_loop g pos tp) =
     (blocks g)[b := blocks g ! b @
        loop_test (next_reg g) pos tp (length (blocks g)) (length (blocks g) + 1)] @ [[], []]"
  by (simp add: enter_loop_def Let_def blocks_advance)

lemma enter_loop_fields:
  "insert_block (enter_loop g pos tp) = Some (length (blocks g))"
  "next_reg (enter_loop g pos tp) = next_reg g + 4"
  "named_values (enter_loop g pos tp) = named_values g"
  "module_functions (enter_loop g pos tp) = module_functions g"
  "length (blocks (enter_loop g pos tp)) = length (blocks g) + 2"
  by (simp_all add: enter_loop_def Let_def advance_fields)

lemma enter_loop_ok:
  assumes "gen_ok g pos tp"
  shows "extends g (enter_loop g pos tp)" "gen_ok (enter_loop g pos tp) pos tp"
proof -
  from assms obtain b where b: "insert_block g = Some b" "b < length (blocks g)"
    and nv: "named_values g ''position'' = Some pos" "named_values g ''tape'' = Some tp"
      "fst pos < next_reg g" "fst tp < next_reg g"
    by (rule gen_okE)
  show "extends g (enter_loop g pos tp)"
    by (rule extendsI[OF b(1) enter_loop_fields(1),
          where zs = "loop_test (next_reg g) pos tp (length (blocks g)) (length (blocks g) + 1)"])
       (simp_all add: enter_loop_fields b blocks_enter_loop[OF b] nth_append)
  show "gen_ok (enter_loop g pos tp) pos tp"
    using nv by (simp add: gen_ok_def enter_loop_fields)
qed

lemma leave_loop_fields:
  "insert_block (leave_loop c g pos tp) = Some (c + 1)"
  "next_reg (leave_loop c g pos tp) = next_reg g + 4"
  "named_values (leave_loop c g pos tp) = named_values g"
  "module_functions (leave_loop c g pos tp) = module_functions g"
  "length (blocks (leave_loop c g pos tp)) = length (blocks g)"
  by (simp_all add: leave_loop_def advance_fields)

lemma blocks_leave_loop:
  "insert_block g = Some b \<Longrightarrow>
   blocks (leave_loop c g pos tp) =
     (blocks g)[b := blocks g ! b @ loop_test (next_reg g) pos tp c (c + 1)]"
  by (simp add: leave_loop_def blocks_advance)

lemma codegen_loop:
  assumes "gen_ok g pos tp"
    and "codegen_children cs (enter_loop g pos tp) = Some g5"
    and "named_values g5 = named_values g"
  shows "codegen (ConditionalGroupNode cs) g = Some (leave_loop (length (blocks g)) g5 pos tp)"
proof -
  have nv: "named_values g5 ''position'' = Some pos" "named_values g5 ''tape'' = Some tp"
    using assms(1,3) by (auto elim: gen_okE)
  show ?thesis
    by (simp add: codegen_loop_enter[OF assms(1)] assms(2)
        get_current_tape_value_advance[OF nv] Create_advance advance_fields advance_advance
        SetInsertPoint_def leave_loop_def loop_test_def nonzero_test_def eval_nat_numeral
        del: codegen.simps)
qed

lemma loop_shape:
  assumes ok: "gen_ok g pos tp" and b: "insert_block g = Some b"
    and ext: "extends (enter_loop g pos tp) g5" and b5: "insert_block g5 = Some b5"
  defines "c \<equiv> length (blocks g)"
  defines "g' \<equiv> leave_loop c g5 pos tp"
  shows "b5 = c \<or> c + 2 \<le> b5"
    and "b5 < length (blocks g5)"
    and "c + 2 \<le> length (blocks g5)"
    and "blocks g' ! b = blocks g ! b @ loop_test (next_reg g) pos tp c (c + 1)"
    and "blocks g' ! (c + 1) = []"
    and "blocks g' ! b5 = blocks g5 ! b5 @ loop_test (next_reg g5) pos tp c (c + 1)"
    and "\<And>i. i < length (blocks g5) \<Longrightarrow> i \<noteq> b5 \<Longrightarrow> blocks g' ! i = blocks g5 ! i"
    and "\<And>i. i < c \<Longrightarrow> i \<noteq> b \<Longrightarrow> blocks g' ! i = blocks g ! i"
    and "\<exists>zs. blocks g5 ! c = zs"
proof -
  from ok b have bl: "b < length (blocks g)" by (auto elim: gen_okE)
  let ?ge = "enter_loop g pos tp"
  from ext obtain e e' zs where E: "insert_block ?ge = Some e" "insert_block g5 = Some e'"
    "length (blocks ?ge) \<le> length (blocks g5)" "e < length (blocks ?ge)"
    "e' < length (blocks g5)" "e' = e \<or> length (blocks ?ge) \<le> e'"
    "blocks g5 ! e = blocks ?ge ! e @ zs"
    "\<And>i. i < length (blocks ?ge) \<Longrightarrow> i \<noteq> e \<Longrightarrow> blocks g5 ! i = blocks ?ge ! i"
    by (rule extendsE) blast
  have e: "e = c" using E(1) by (simp add: enter_loop_fields c_def)
  have e': "e' = b5" using E(2) b5 by simp
  have len: "length (blocks ?ge) = c + 2" by (simp add: enter_loop_fields c_def)
  show 1: "b5 = c \<or> c + 2 \<le> b5" using E(6) e e' len by simp
  show 2: "b5 < length (blocks g5)" using E(5) e' by simp
  show 3: "c + 2 \<le> length (blocks g5)" using E(3) len by simp
  have bg': "blocks g' = (blocks g5)[b5 := blocks g5 ! b5 @ loop_test (next_reg g5) pos tp c (c + 1)]"
    by (simp add: g'_def blocks_leave_loop[OF b5])
  have ge_b: "blocks ?ge ! b = blocks g ! b @ loop_test (next_reg g) pos tp c (c + 1)"
    using bl by (simp add: blocks_enter_loop[OF b bl] nth_append c_def)
  have ge_m: "blocks ?ge ! (c + 1) = []"
    by (simp add: blocks_enter_loop[OF b bl] nth_append c_def)
  have ge_i: "blocks ?ge ! i = blocks g ! i" if "i < c" "i \<noteq> b" for i
    using that by (simp add: blocks_enter_loop[OF b bl] nth_append c_def)
  have bc: "b < c" using bl by (simp add: c_def)
  have ne: "b5 \<noteq> b" "b5 \<noteq> c + 1" using 1 bc by auto
  have "blocks g' ! b = blocks g5 ! b" using ne by (simp add: bg')
  also have "\<dots> = blocks ?ge ! b" using E(8)[of b] bc e len by simp
  finally show "blocks g' ! b = blocks g ! b @ loop_test (next_reg g) pos tp c (c + 1)"
    using ge_b by simp
  have "blocks g' ! (c + 1) = blocks g5 ! (c + 1)" using ne by (simp add: bg')
  also have "\<dots> = blocks ?ge ! (c + 1)" using E(8)[of "c + 1"] e len by simp
  finally show "blocks g' ! (c + 1) = []" using ge_m by simp
  show "blocks g' ! b5 = blocks g5 ! b5 @ loop_test (next_reg g5) pos tp c (c + 1)"
    using 2 by (simp add: bg')
  show "blocks g' ! i = blocks g5 ! i" if "i < length (blocks g5)" "i \<noteq> b5" for i
    using that by (simp add: bg')
  show "blocks g' ! i = blocks g ! i" if "i < c" "i \<noteq> b" for i
  proof -
    have "b5 \<noteq> i" using 1 that(1) by auto
    then have "blocks g' ! i = blocks g5 ! i" by (simp add: bg')
    also have "\<dots> = blocks ?ge ! i" using E(8)[of i] that(1) e len by simp
    finally show ?thesis using ge_i[OF that] by simp
  qed
  show "\<exists>zs. blocks g5 ! c = zs" by simp
qed

lemma leave_loop_ok:
  assumes ok: "gen_ok g pos tp"
    and ext: "extends (enter_loop g pos tp) g5" and ok5: "gen_ok g5 pos tp"
  shows "extends g (leave_loop (length (blocks g)) g5 pos tp)"
    and "gen_ok (leave_loop (length (blocks g)) g5 pos tp) pos tp"
proof -
  from ok obtain b where b: "insert_block g = Some b" "b < length (blocks g)"
    and nv: "named_values g ''position'' = Some pos" "named_values g ''tape'' = Some tp"
      "fst pos < next_reg g" "fst tp < next_reg g"
    by (rule gen_okE)
  from ok5 obtain b5 where b5: "insert_block g5 = Some b5"
    and nv5: "named_values g5 ''position'' = Some pos" "named_values g5 ''tape'' = Some tp"
      "fst pos < next_reg g5" "fst tp < next_reg g5"
    by (rule gen_okE)
  let ?c = "length (blocks g)"
  let ?g' = "leave_loop ?c g5 pos tp"
  note sh = loop_shape[OF ok b(1) ext b5]
  from ext have nvs: "named_values g5 = named_values (enter_loop g pos tp)"
      "next_reg (enter_loop g pos tp) \<le> next_reg g5"
    by (auto elim: extendsE)
  show "extends g ?g'"
  proof (rule extendsI[OF b(1) leave_loop_fields(1) _ b(2) _ _ sh(4)])
    show "length (blocks g) \<le> length (blocks ?g')"
      using sh(3) by (simp add: leave_loop_fields)
    show "?c + 1 < length (blocks ?g')"
      using sh(3) by (simp add: leave_loop_fields)
    show "?c + 1 = b \<or> length (blocks g) \<le> ?c + 1" by simp
    show "blocks ?g' ! i = blocks g ! i" if "i < length (blocks g)" "i \<noteq> b" for i
      using sh(8)[OF that] .
    show "named_values ?g' = named_values g"
      using nvs(1) by (simp add: leave_loop_fields enter_loop_fields)
    show "next_reg g \<le> next_reg ?g'"
      using nvs(2) by (simp add: leave_loop_fields enter_loop_fields)
  qed
  show "gen_ok ?g' pos tp"
    using sh(3) nv5 by (simp add: gen_ok_def leave_loop_fields)
qed

lemma codegen_children_ok_aux:
  assumes "\<And>n g. n \<in> set ns \<Longrightarrow> gen_ok g pos tp \<Longrightarrow>
             \<exists>g'. codegen n g = Some g' \<and> gen_ok g' pos tp \<and> extends g g'"
    and "gen_ok g pos tp"
  shows "\<exists>g'. codegen_children ns g = Some g' \<and> gen_ok g' pos tp \<and> extends g g'"
  using assms
proof (induction ns arbitrary: g)
  case Nil
  then show ?case by (simp add: extends_refl)
next
  case (Cons n ns)
  from Cons.prems(1)[of n g] Cons.prems(2)
  obtain g1 where g1: "codegen n g = Some g1" "gen_ok g1 pos tp" "extends g g1" by auto
  from Cons.IH[OF _ g1(2)] Cons.prems(1)
  obtain g2 where g2: "codegen_children ns g1 = Some g2" "gen_ok g2 pos tp" "extends g1 g2"
    by auto
  show ?case using g1 g2 extends_trans by auto
qed

lemma codegen_leaf_ok:
  assumes ok: "gen_ok g pos tp" and leaf: "\<forall>cs. n \<noteq> ConditionalGroupNode cs"
  shows "\<exists>g'. codegen n g = Some g' \<and> gen_ok g' pos tp \<and> extends g g'"
proof -
  from ok have nv: "named_values g ''position'' = Some pos" "named_values g ''tape'' = Some tp"
    by (auto elim: gen_okE)
  let ?g' = "advance (leaf_regs n) (leaf_code n (next_reg g) pos tp) (leaf_decl n g)"
  have cg: "codegen n g = Some ?g'" using nv leaf by (rule codegen_leaf)
  have okd: "gen_ok (leaf_decl n g) pos tp" using ok by (rule gen_ok_leaf_decl)
  have "extends g (leaf_decl n g)" using ok by (rule extends_leaf_decl)
  moreover have "extends (leaf_decl n g) ?g'" using okd by (rule extends_advance(1))
  ultimately have "extends g ?g'" by (rule extends_trans)
  moreover have "gen_ok ?g' pos tp" using okd by (rule extends_advance(2))
  ultimately show ?thesis using cg by simp
qed

lemma codegen_ok:
  assumes "gen_ok g pos tp"
  shows "\<exists>g'. codegen n g = Some g' \<and> gen_ok g' pos tp \<and> extends g g'"
  using assms
proof (induction n arbitrary: g)
  case (ConditionalGroupNode cs)
  have "gen_ok (enter_loop g pos tp) pos tp"
    using ConditionalGroupNode.prems by (rule enter_loop_ok)
  with codegen_children_ok_aux[of cs pos tp "enter_loop g pos tp"] ConditionalGroupNode.IH
  obtain g5 where g5: "codegen_children cs (enter_loop g pos tp) = Some g5"
    "gen_ok g5 pos tp" "extends (enter_loop g pos tp) g5"
    by blast
  have nv: "named_values g5 = named_values g"
    using g5(3) by (auto elim!: extendsE simp: enter_loop_fields)
  have "codegen (ConditionalGroupNode cs) g = Some (leave_loop (length (blocks g)) g5 pos tp)"
    using ConditionalGroupNode.prems g5(1) nv by (rule codegen_loop)
  then show ?case
    using leave_loop_ok[OF ConditionalGroupNode.prems g5(3) g5(2)] by simp
qed (simp_all add: codegen_leaf_ok del: codegen.simps)

lemma codegen_children_ok:
  assumes "gen_ok g pos tp"
  shows "\<exists>g'. codegen_children ns g = Some g' \<and> gen_ok g' pos tp \<and> extends g g'"
  using codegen_children_ok_aux[OF _ assms] codegen_ok by blast

lemma exec_instrs_append:
  "exec_instrs (xs @ ys) s =
     (case exec_instrs xs s of Inl e \<Rightarrow> Inl e | Inr s' \<Rightarrow> exec_instrs ys s')"
  by (induction xs arbitrary: s) (simp_all split: sum.splits)

lemma some_upd: "(\<lambda>i. Some (t i))(k := Some v) = (\<lambda>i. Some ((t(k := v)) i))"
  by (rule ext) simp

lemma exec_leaf:
  assumes "sim pos tp a s" "fst pos < r" "fst tp < r" "\<forall>cs. n \<noteq> ConditionalGroupNode cs"
  shows "case bf_leaf n a of
           Inl e \<Rightarrow> exec_instrs (leaf_code n r pos tp) s = Inl e
         | Inr a' \<Rightarrow> (\<exists>s'. exec_instrs (leaf_code n r pos tp) s = Inr s' \<and> sim pos tp a' s')"
proof -
  obtain pv pt tv tt where [simp]: "pos = (pv, pt)" "tp = (tv, tt)"
    by (cases pos; cases tp)
  obtain p t i out where [simp]: "a = BF p t i out" by (cases a)
  show ?thesis
  proof (cases n)
    case IncrementNode
    then show ?thesis using assms(1-3)
      by (simp add: sim_def leaf_code_def cell_addr_def ret_reg_def set_reg_def bind2_def
          in_bounds_def some_upd)
  next
    case DecrementNode
    then show ?thesis using assms(1-3)
      by (simp add: sim_def leaf_code_def cell_addr_def ret_reg_def set_reg_def bind2_def
          in_bounds_def some_upd)
  next
    case MoveLeftNode
    then show ?thesis using assms(1-3)
      by (simp add: sim_def leaf_code_def cell_addr_def ret_reg_def set_reg_def bind2_def
          in_bounds_def)
  next
    case MoveRightNode
    then show ?thesis using assms(1-3)
      by (simp add: sim_def leaf_code_def cell_addr_def ret_reg_def set_reg_def bind2_def
          in_bounds_def)
  next
    case PutCharNode
    then show ?thesis using assms(1-3)
      by (simp add: sim_def leaf_code_def cell_addr_def ret_reg_def set_reg_def bind2_def
          in_bounds_def)
  next
    case GetCharNode
    then show ?thesis using assms(1-3)
      by (cases i)
         (simp_all add: sim_def leaf_code_def cell_addr_def ret_reg_def set_reg_def bind2_def
          in_bounds_def getchar_result_def some_upd)
  next
    case (ConditionalGroupNode cs)
    then show ?thesis using assms(4) by simp
  qed
qed

lemma run_Suc:
  "run (Suc F) B b s = (if b < length B then cont F B (B ! b) s else Some (Inl IllFormed))"
  by (simp add: cont_def split: sum.splits option.splits prod.splits)

lemma exec_block_append:
  "\<forall>i\<in>set xs. \<not> is_terminator i \<Longrightarrow>
   exec_block (xs @ ys) s =
     (case exec_instrs xs s of Inl e \<Rightarrow> Inl e | Inr s' \<Rightarrow> exec_block ys s')"
proof (induction xs arbitrary: s)
  case Nil
  show ?case by simp
next
  case (Cons i xs)
  then show ?case by (cases i) (simp_all split: sum.splits)
qed

lemma leaf_code_straight: "\<forall>i\<in>set (leaf_code n r pos tp). \<not> is_terminator i"
  by (cases n) (simp_all add: leaf_code_def cell_addr_def)

lemma grows_refl: "grows A A"
  by (simp add: grows_def)

lemma grows_nth:
  assumes "grows A B" "i < length A"
  shows "\<exists>zs. B ! i = A ! i @ zs"
  using assms by (auto simp: grows_def take_prefix_iff)

lemma growsI:
  assumes "length A \<le> length B" "\<And>i. i < length A \<Longrightarrow> \<exists>zs. B ! i = A ! i @ zs"
  shows "grows A B"
  using assms by (auto simp: grows_def take_prefix_iff)

lemma grows_trans:
  assumes "grows A B" "grows B C"
  shows "grows A C"
proof (rule growsI)
  show "length A \<le> length C" using assms by (simp add: grows_def)
  fix i assume i: "i < length A"
  then have "i < length B" using assms(1) by (simp add: grows_def)
  with grows_nth[OF assms(1) i] grows_nth[OF assms(2)]
  show "\<exists>zs. C ! i = A ! i @ zs" by fastforce
qed

lemma extends_grows:
  assumes "extends g g'"
  shows "grows (blocks g) (blocks g')"
proof -
  from assms obtain b b' zs where 1: "insert_block g = Some b" 
    "length (blocks g) \<le> length (blocks g')" 
    "blocks g' ! b = blocks g ! b @ zs"
    "\<And>i. i < length (blocks g) \<Longrightarrow> i \<noteq> b \<Longrightarrow> blocks g' ! i = blocks g ! i"
    by (rule extendsE) blast
  show ?thesis
  proof (rule growsI[OF 1(2)])
    fix i assume "i < length (blocks g)"
    then show "\<exists>zs. blocks g' ! i = blocks g ! i @ zs"
      using 1(3) 1(4)[of i] by (cases "i = b") auto
  qed
qed

lemma tail_code_eq:
  assumes "insert_block g = Some b" "B ! b = blocks g ! b @ zs"
  shows "tail_code g B = zs"
  using assms by (simp add: tail_code_def)

lemma reaches_err:
  "(\<And>F. cont (F + k) B code s = Some (Inl e)) \<Longrightarrow> reaches B pos tp code s (Inl e) code'"
  by (auto simp: reaches_def)

lemma reaches_done:
  "sim pos tp a' s' \<Longrightarrow> (\<And>F. cont (F + k) B code s = cont F B code' s') \<Longrightarrow>
   reaches B pos tp code s (Inr a') code'"
  by (auto simp: reaches_def)

lemma reaches_step:
  assumes "\<And>F. cont (F + k) B code s = cont F B code1 s1"
    and "reaches B pos tp code1 s1 r code'"
  shows "reaches B pos tp code s r code'"
proof (cases r)
  case (Inl e)
  with assms(2) obtain j where j: "\<And>F. cont (F + j) B code1 s1 = Some (Inl e)"
    by (auto simp: reaches_def)
  have "cont (F + (j + k)) B code s = Some (Inl e)" for F
    using assms(1)[of "F + j"] j[of F] by (simp add: add.assoc)
  then show ?thesis unfolding Inl by (rule reaches_err)
next
  case (Inr a')
  with assms(2) obtain j s' where j: "sim pos tp a' s'"
    "\<And>F. cont (F + j) B code1 s1 = cont F B code' s'"
    by (auto simp: reaches_def)
  have "cont (F + (j + k)) B code s = cont F B code' s'" for F
    using assms(1)[of "F + j"] j(2)[of F] by (simp add: add.assoc)
  with j(1) show ?thesis unfolding Inr by (rule reaches_done)
qed

lemma reaches_trans:
  assumes "reaches B pos tp code s (Inr a1) code1"
    and "\<And>s1. sim pos tp a1 s1 \<Longrightarrow> reaches B pos tp code1 s1 r code'"
  shows "reaches B pos tp code s r code'"
proof -
  from assms(1) obtain k s1 where 1: "sim pos tp a1 s1"
    "\<And>F. cont (F + k) B code s = cont F B code1 s1"
    by (auto simp: reaches_def)
  show ?thesis using 1(2) assms(2)[OF 1(1)] by (rule reaches_step)
qed

lemma cont_leaf:
  assumes "sim pos tp a s" "fst pos < r" "fst tp < r" "\<forall>cs. n \<noteq> ConditionalGroupNode cs"
  shows "reaches B pos tp (leaf_code n r pos tp @ ys) s (bf_leaf n a) ys"
proof (cases "bf_leaf n a")
  case (Inl e)
  with exec_leaf[OF assms] have "exec_instrs (leaf_code n r pos tp) s = Inl e" by simp
  then have "cont (F + 0) B (leaf_code n r pos tp @ ys) s = Some (Inl e)" for F
    by (simp add: cont_def exec_block_append[OF leaf_code_straight])
  then show ?thesis unfolding Inl by (rule reaches_err)
next
  case (Inr a')
  with exec_leaf[OF assms] obtain s' where
    s': "exec_instrs (leaf_code n r pos tp) s = Inr s'" "sim pos tp a' s'" by auto
  have "cont (F + 0) B (leaf_code n r pos tp @ ys) s = cont F B ys s'" for F
    using s'(1) by (simp add: cont_def exec_block_append[OF leaf_code_straight])
  with s'(2) show ?thesis unfolding Inr by (rule reaches_done)
qed

lemma cont_loop_test:
  assumes "sim pos tp a s" "fst pos < r" "fst tp < r"
  shows "if in_bounds (bf_ptr a)
         then \<exists>s'. sim pos tp a s' \<and>
                (\<forall>F. cont F B (loop_test r pos tp c m @ ys) s =
                      run F B (if cell_zero a then m else c) s')
         else \<forall>F. cont F B (loop_test r pos tp c m @ ys) s = Some (Inl OutOfBounds)"
proof -
  obtain pv pt tv tt where [simp]: "pos = (pv, pt)" "tp = (tv, tt)"
    by (cases pos; cases tp)
  obtain p t i out where [simp]: "a = BF p t i out" by (cases a)
  let ?s' = "s\<lparr>regs := (regs s)(r \<mapsto> VI64 p, Suc r \<mapsto> VPtr tv (sint p),
               Suc (Suc r) \<mapsto> VI8 (t (sint p)), r + 3 \<mapsto> VI1 (t (sint p) \<noteq> 0))\<rparr>"
  show ?thesis
  proof (cases "in_bounds p")
    case True
    have "sim pos tp a ?s'" using assms by (simp add: sim_def)
    moreover have "cont F B (loop_test r pos tp c m @ ys) s =
                     run F B (if cell_zero a then m else c) ?s'" for F
      using assms True
      by (simp add: sim_def loop_test_def nonzero_test_def cell_addr_def cont_def ret_reg_def
          set_reg_def bind2_def in_bounds_def cell_zero_def)
    ultimately show ?thesis using True by auto
  next
    case False
    then show ?thesis using assms
      by (simp add: sim_def loop_test_def nonzero_test_def cell_addr_def cont_def ret_reg_def
          set_reg_def bind2_def in_bounds_def[symmetric])
  qed
qed

lemma leave_loop_grows:
  assumes "insert_block g5 = Some b5"
  shows "grows (blocks g5) (blocks (leave_loop c g5 pos tp))"
proof (rule growsI)
  show "length (blocks g5) \<le> length (blocks (leave_loop c g5 pos tp))"
    by (simp add: leave_loop_fields)
  fix i assume "i < length (blocks g5)"
  then show "\<exists>zs. blocks (leave_loop c g5 pos tp) ! i = blocks g5 ! i @ zs"
    by (cases "i = b5") (simp_all add: blocks_leave_loop[OF assms])
qed

lemma tail_code_grows:
  assumes "gen_ok g pos tp" "grows (blocks g) B"
  shows "\<exists>b zs. insert_block g = Some b \<and> B ! b = blocks g ! b @ zs \<and> tail_code g B = zs"
proof -
  from assms(1) obtain b where b: "insert_block g = Some b" "b < length (blocks g)"
    by (rule gen_okE)
  from grows_nth[OF assms(2) b(2)] obtain zs where "B ! b = blocks g ! b @ zs" ..
  then show ?thesis using b(1) tail_code_eq by blast
qed

lemma simulation:
  fixes B :: "instr list list" and pos tp :: "nat \<times> ty"
  shows "\<forall>g g' s r. gen_ok g pos tp \<longrightarrow> codegen n g = Some g' \<longrightarrow> grows (blocks g') B \<longrightarrow>
           sim pos tp a s \<longrightarrow> bf_node f n a = Some r \<longrightarrow>
           reaches B pos tp (tail_code g B) s r (tail_code g' B)"
    and "\<forall>g g' s r. gen_ok g pos tp \<longrightarrow> codegen_children ns g = Some g' \<longrightarrow>
           grows (blocks g') B \<longrightarrow> sim pos tp a1 s \<longrightarrow> bf_nodes f1 ns a1 = Some r \<longrightarrow>
           reaches B pos tp (tail_code g B) s r (tail_code g' B)"
    and "\<forall>g g5 s r. gen_ok g pos tp \<longrightarrow>
           codegen_children cs (enter_loop g pos tp) = Some g5 \<longrightarrow>
           grows (blocks (leave_loop (length (blocks g)) g5 pos tp)) B \<longrightarrow>
           sim pos tp a2 s \<longrightarrow> bf_body f2 cs a2 = Some r \<longrightarrow>
           reaches B pos tp (B ! length (blocks g)) s r (B ! (length (blocks g) + 1))"
proof (induction f n a and f1 ns a1 and f2 cs a2 rule: bf_node_bf_nodes_bf_body.induct)
  case (1 f n a)
  show ?case
  proof (intro allI impI)
    fix g g' s r
    assume ok: "gen_ok g pos tp" and cg: "codegen n g = Some g'"
      and gr: "grows (blocks g') B" and sm: "sim pos tp a s" and bf: "bf_node f n a = Some r"
    from ok obtain b where b: "insert_block g = Some b" "b < length (blocks g)"
      and nv: "named_values g ''position'' = Some pos" "named_values g ''tape'' = Some tp"
        "fst pos < next_reg g" "fst tp < next_reg g"
      by (rule gen_okE)
    show "reaches B pos tp (tail_code g B) s r (tail_code g' B)"
    proof (cases "\<exists>cs. n = ConditionalGroupNode cs")
      case False
      then have leaf: "\<forall>cs. n \<noteq> ConditionalGroupNode cs" by simp
      let ?code = "leaf_code n (next_reg g) pos tp"
      have g': "g' = advance (leaf_regs n) ?code (leaf_decl n g)"
        using codegen_leaf[OF nv(1,2) leaf] cg by simp
      have ib': "insert_block g' = Some b"
        by (simp add: g' advance_fields leaf_decl_fields b)
      have bl': "blocks g' ! b = blocks g ! b @ ?code"
        using b by (simp add: g' blocks_advance leaf_decl_fields)
      have "b < length (blocks g')"
        using b by (simp add: g' advance_fields leaf_decl_fields)
      from grows_nth[OF gr this] obtain zs where zs: "B ! b = blocks g' ! b @ zs" ..
      have t': "tail_code g' B = zs" using ib' zs by (rule tail_code_eq)
      have t: "tail_code g B = ?code @ zs"
        using b(1) zs bl' by (simp add: tail_code_def)
      have r: "r = bf_leaf n a" using bf leaf by (cases n) simp_all
      show ?thesis
        unfolding t t' r using sm nv(3,4) leaf by (rule cont_leaf)
    next
      case True
      then obtain cs where n: "n = ConditionalGroupNode cs" ..
      let ?ge = "enter_loop g pos tp"
      let ?c = "length (blocks g)"
      have oke: "gen_ok ?ge pos tp" using ok by (rule enter_loop_ok)
      from codegen_children_ok[OF oke, of cs]
      obtain g5 where g5: "codegen_children cs ?ge = Some g5" "gen_ok g5 pos tp"
        "extends ?ge g5" by blast
      have nv5: "named_values g5 = named_values g"
        using g5(3) by (auto elim!: extendsE simp: enter_loop_fields)
      have g': "g' = leave_loop ?c g5 pos tp"
        using codegen_loop[OF ok g5(1) nv5] cg n by simp
      from g5(2) obtain b5 where b5: "insert_block g5 = Some b5" by (rule gen_okE)
      note sh = loop_shape[OF ok b(1) g5(3) b5]
      have lenB: "?c + 2 \<le> length B"
        using gr sh(3) by (simp add: grows_def g' leave_loop_fields)
      have "b < length (blocks g')" using b(2) sh(3) by (simp add: g' leave_loop_fields)
      from grows_nth[OF gr this] obtain zs where
        zs: "B ! b = blocks g ! b @ loop_test (next_reg g) pos tp ?c (?c + 1) @ zs"
        using sh(4) by (auto simp: g')
      have t: "tail_code g B = loop_test (next_reg g) pos tp ?c (?c + 1) @ zs"
        using b(1) zs by (rule tail_code_eq)
      have t': "tail_code g' B = B ! (?c + 1)"
        using sh(5) by (simp add: tail_code_def g' leave_loop_fields)
      show ?thesis
      proof (cases "in_bounds (bf_ptr a)")
        case False
        then have "cont (F + 0) B (tail_code g B) s = Some (Inl OutOfBounds)" for F
          using cont_loop_test[OF sm nv(3,4), of B ?c "?c + 1" zs] by (simp add: t)
        moreover have "r = Inl OutOfBounds" using bf n False by simp
        ultimately show ?thesis using reaches_err by blast
      next
        case True
        with cont_loop_test[OF sm nv(3,4), of B ?c "?c + 1" zs]
        obtain s1 where s1: "sim pos tp a s1"
          "\<And>F. cont F B (tail_code g B) s = run F B (if cell_zero a then ?c + 1 else ?c) s1"
          by (auto simp: t)
        show ?thesis
        proof (cases "cell_zero a")
          case cz: True
          have "cont (F + 1) B (tail_code g B) s = cont F B (tail_code g' B) s1" for F
            using s1(2)[of "Suc F"] cz lenB by (simp add: run_Suc t' del: run.simps)
          moreover have "r = Inr a" using bf n True cz by simp
          ultimately show ?thesis using s1(1) reaches_done by blast
        next
          case cz: False
          have step: "cont (F + 1) B (tail_code g B) s = cont F B (B ! ?c) s1" for F
            using s1(2)[of "Suc F"] cz lenB by (simp add: run_Suc del: run.simps)
          have body: "bf_body f cs a = Some r" using bf n True cz by simp
          have "reaches B pos tp (B ! ?c) s1 r (B ! (?c + 1))"
            using 1[OF n _ cz] True ok g5(1) gr s1(1) body unfolding g' by blast
          then show ?thesis unfolding t' using step reaches_step by blast
        qed
      qed
    qed
  qed
next
  case (2 f a)
  show ?case
  proof (intro allI impI)
    fix g g' s r
    assume "codegen_children [] g = Some g'" "sim pos tp a s" "bf_nodes f [] a = Some r"
    then have "g' = g" "r = Inr a" "sim pos tp a s" by simp_all
    then show "reaches B pos tp (tail_code g B) s r (tail_code g' B)"
      using reaches_done[of pos tp a s 0 B "tail_code g B" s "tail_code g B"] by simp
  qed
next
  case (3 f n ns a)
  show ?case
  proof (intro allI impI)
    fix g g' s r
    assume ok: "gen_ok g pos tp" and cg: "codegen_children (n # ns) g = Some g'"
      and gr: "grows (blocks g') B" and sm: "sim pos tp a s"
      and bf: "bf_nodes f (n # ns) a = Some r"
    from codegen_ok[OF ok, of n] obtain g1 where g1: "codegen n g = Some g1"
      "gen_ok g1 pos tp" "extends g g1" by blast
    have cg2: "codegen_children ns g1 = Some g'" using cg g1(1) by simp
    from codegen_children_ok[OF g1(2), of ns] cg2 have ext2: "extends g1 g'" by auto
    have gr1: "grows (blocks g1) B"
      using extends_grows[OF ext2] gr by (rule grows_trans)
    from bf obtain r1 where r1: "bf_node f n a = Some r1"
      by (cases "bf_node f n a") simp_all
    have R1: "reaches B pos tp (tail_code g B) s r1 (tail_code g1 B)"
      using 3(1) ok g1(1) gr1 sm r1 by blast
    show "reaches B pos tp (tail_code g B) s r (tail_code g' B)"
    proof (cases r1)
      case (Inl e)
      then have "r = Inl e" using bf r1 by simp
      with R1 Inl show ?thesis by (simp add: reaches_def)
    next
      case (Inr a')
      then have bf2: "bf_nodes f ns a' = Some r" using bf r1 by simp
      have "reaches B pos tp (tail_code g1 B) s1 r (tail_code g' B)"
        if "sim pos tp a' s1" for s1
        using 3(2)[OF r1 Inr] g1(2) cg2 gr that bf2 by blast
      with R1[unfolded Inr] show ?thesis by (rule reaches_trans)
    qed
  qed
next
  case (4 cs a)
  show ?case by simp
next
  case (5 f cs a)
  show ?case
  proof (intro allI impI)
    fix g g5 s r
    let ?ge = "enter_loop g pos tp"
    let ?c = "length (blocks g)"
    let ?g' = "leave_loop ?c g5 pos tp"
    assume ok: "gen_ok g pos tp" and cg: "codegen_children cs ?ge = Some g5"
      and gr: "grows (blocks ?g') B" and sm: "sim pos tp a s"
      and bf: "bf_body (Suc f) cs a = Some r"
    from ok obtain b where b: "insert_block g = Some b" "b < length (blocks g)"
      by (rule gen_okE)
    have oke: "gen_ok ?ge pos tp" using ok by (rule enter_loop_ok)
    from codegen_children_ok[OF oke, of cs] cg
    have g5: "gen_ok g5 pos tp" "extends ?ge g5" by auto
    from g5(1) obtain b5 where b5: "insert_block g5 = Some b5" "b5 < length (blocks g5)"
      and nv5: "fst pos < next_reg g5" "fst tp < next_reg g5"
      by (rule gen_okE)
    note sh = loop_shape[OF ok b(1) g5(2) b5(1)]
    have lenB: "?c + 2 \<le> length B"
      using gr sh(3) by (simp add: grows_def leave_loop_fields)
    have gr5: "grows (blocks g5) B"
      using leave_loop_grows[OF b5(1)] gr by (rule grows_trans)
    have te: "tail_code ?ge B = B ! ?c"
      using b by (simp add: tail_code_def enter_loop_fields blocks_enter_loop nth_append)
    have "b5 < length (blocks ?g')" using b5(2) by (simp add: leave_loop_fields)
    from grows_nth[OF gr this] obtain zs where
      zs: "B ! b5 = blocks g5 ! b5 @ loop_test (next_reg g5) pos tp ?c (?c + 1) @ zs"
      using sh(6) by auto
    have t5: "tail_code g5 B = loop_test (next_reg g5) pos tp ?c (?c + 1) @ zs"
      using b5(1) zs by (rule tail_code_eq)
    from bf obtain r1 where r1: "bf_nodes f cs a = Some r1"
      by (cases "bf_nodes f cs a") simp_all
    have R1: "reaches B pos tp (B ! ?c) s r1 (tail_code g5 B)"
      using 5(1) oke cg gr5 sm r1 unfolding te[symmetric] by blast
    show "reaches B pos tp (B ! ?c) s r (B ! (?c + 1))"
    proof (cases r1)
      case (Inl e)
      then have "r = Inl e" using bf r1 by simp
      with R1 Inl show ?thesis by (simp add: reaches_def)
    next
      case (Inr a')
      have "reaches B pos tp (tail_code g5 B) s1 r (B ! (?c + 1))"
        if s1: "sim pos tp a' s1" for s1
      proof (cases "in_bounds (bf_ptr a')")
        case False
        then have "cont (F + 0) B (tail_code g5 B) s1 = Some (Inl OutOfBounds)" for F
          using cont_loop_test[OF s1 nv5, of B ?c "?c + 1" zs] by (simp add: t5)
        moreover have "r = Inl OutOfBounds" using bf r1 Inr False by simp
        ultimately show ?thesis using reaches_err by blast
      next
        case True
        with cont_loop_test[OF s1 nv5, of B ?c "?c + 1" zs]
        obtain s2 where s2: "sim pos tp a' s2"
          "\<And>F. cont F B (tail_code g5 B) s1 = run F B (if cell_zero a' then ?c + 1 else ?c) s2"
          by (auto simp: t5)
        show ?thesis
        proof (cases "cell_zero a'")
          case cz: True
          have "cont (F + 1) B (tail_code g5 B) s1 = cont F B (B ! (?c + 1)) s2" for F
            using s2(2)[of "Suc F"] cz lenB by (simp add: run_Suc del: run.simps)
          moreover have "r = Inr a'" using bf r1 Inr True cz by simp
          ultimately show ?thesis using s2(1) reaches_done by blast
        next
          case cz: False
          have step: "cont (F + 1) B (tail_code g5 B) s1 = cont F B (B ! ?c) s2" for F
            using s2(2)[of "Suc F"] cz lenB by (simp add: run_Suc del: run.simps)
          have body: "bf_body f cs a' = Some r" using bf r1 Inr True cz by simp
          have "reaches B pos tp (B ! ?c) s2 r (B ! (?c + 1))"
            using 5(2)[OF r1 Inr _ cz] True ok cg gr s2(1) body by blast
          then show ?thesis using step reaches_step by blast
        qed
      qed
      with R1[unfolded Inr] show ?thesis by (rule reaches_trans)
    qed
  qed
qed

lemma ProgramNode_codegen_init:
  "ProgramNode_codegen (ProgramNode cs) llvm_init =
     (case codegen_children cs entry_state of
        None \<Rightarrow> None
      | Some g9 \<Rightarrow> Some (CreateRet None g9))"
proof -
  have "(case BasicBlock_Create
               (llvm_init\<lparr>module_functions := module_functions llvm_init @
                   [(''main'', FunctionType VoidTy [])]\<rparr>) of
          (main_block, g2) \<Rightarrow>
          case CreateAlloca Int64Ty (SetInsertPoint main_block g2) of
          (position, g3) \<Rightarrow>
            let g4 = CreateStore (ConstantInt Int64Ty 0) (Reg (fst position)) g3;
                g5 = g4\<lparr>named_values := (named_values g4)(''position'' \<mapsto> position)\<rparr>
            in case CreateAlloca (ArrayTy Int8Ty TAPE_SIZE) g5 of
               (tp6, g6) \<Rightarrow>
                 let g7 = CreateStore (ConstantAggregateZero (ArrayTy Int8Ty TAPE_SIZE))
                            (Reg (fst tp6)) g6;
                     g8 = g7\<lparr>named_values := (named_values g7)(''tape'' \<mapsto> tp6)\<rparr>
                 in F g8) = F entry_state" for F :: "gen \<Rightarrow> gen option"
    by (simp add: llvm_init_def BasicBlock_Create_def SetInsertPoint_def CreateAlloca_def
        CreateStore_def fresh_def Insert_def entry_state_def prologue_def Let_def
        eval_nat_numeral)
  then show ?thesis by (simp add: Let_def)
qed

lemma entry_state_ok: "gen_ok entry_state POS TP"
  by (simp add: gen_ok_def entry_state_def)

lemma exec_prologue: "exec_instrs prologue (initial_mstate i) = Inr (entry_mstate i)"
  by (simp add: prologue_def initial_mstate_def entry_mstate_def set_reg_def bind2_def
      fun_upd_twist)

lemma entry_sim: "sim POS TP (BF 0 (\<lambda>_. 0) i []) (entry_mstate i)"
  by (simp add: sim_def entry_mstate_def)

lemma prologue_straight: "\<forall>i\<in>set prologue. \<not> is_terminator i"
  by (simp add: prologue_def)

theorem program_simulation:
  assumes "bf_nodes f cs (BF 0 (\<lambda>_. 0) i []) = Some r"
  shows "\<exists>g k. ProgramNode_codegen (ProgramNode cs) llvm_init = Some g \<and>
           (case r of
              Inl e \<Rightarrow> \<forall>F. execute (F + k) g i = Some (Inl e)
            | Inr a \<Rightarrow> \<exists>s. sim POS TP a s \<and> (\<forall>F. execute (F + k) g i = Some (Inr s)))"
proof -
  from codegen_children_ok[OF entry_state_ok, of cs]
  obtain g9 where g9: "codegen_children cs entry_state = Some g9" "gen_ok g9 POS TP"
    "extends entry_state g9" by blast
  let ?g = "CreateRet None g9"
  let ?B = "blocks ?g"
  have cg: "ProgramNode_codegen (ProgramNode cs) llvm_init = Some ?g"
    by (simp add: ProgramNode_codegen_init g9(1) del: ProgramNode_codegen.simps)
  from g9(2) obtain b9 where b9: "insert_block g9 = Some b9" "b9 < length (blocks g9)"
    by (rule gen_okE)
  have B: "?B = (blocks g9)[b9 := blocks g9 ! b9 @ [Ret None]]"
    using b9 by (simp add: Create_advance blocks_advance)
  have gr9: "grows (blocks g9) ?B"
  proof (rule growsI)
    show "length (blocks g9) \<le> length ?B" by (simp add: B)
    fix j assume "j < length (blocks g9)"
    then show "\<exists>zs. ?B ! j = blocks g9 ! j @ zs" by (cases "j = b9") (simp_all add: B)
  qed
  have gre: "grows (blocks entry_state) ?B"
    using extends_grows[OF g9(3)] gr9 by (rule grows_trans)
  from tail_code_grows[OF entry_state_ok gre]
  have B0: "?B ! 0 = prologue @ tail_code entry_state ?B"
    by (auto simp: entry_state_def)
  have len: "0 < length ?B" using b9 by (auto simp: B)
  have t9: "tail_code g9 ?B = [Ret None]"
    using b9 by (simp add: tail_code_def B)
  have start: "execute (Suc F) ?g i = cont F ?B (tail_code entry_state ?B) (entry_mstate i)" for F
    using len
    by (simp add: execute_def run_Suc B0 cont_def exec_block_append[OF prologue_straight]
        exec_prologue del: run.simps)
  have R: "reaches ?B POS TP (tail_code entry_state ?B) (entry_mstate i) r (tail_code g9 ?B)"
    using simulation(2)[of POS TP cs ?B "BF 0 (\<lambda>_. 0) i []" f]
      entry_state_ok g9(1) gr9 entry_sim assms by blast
  show ?thesis
  proof (cases r)
    case (Inl e)
    with R obtain k where "\<And>F. cont (F + k) ?B (tail_code entry_state ?B) (entry_mstate i)
        = Some (Inl e)" by (auto simp: reaches_def)
    then have "execute (F + Suc k) ?g i = Some (Inl e)" for F
      using start[of "F + k"] by simp
    then show ?thesis using cg Inl by (intro exI[of _ ?g] exI[of _ "Suc k"]) simp
  next
    case (Inr a)
    with R obtain k s where s: "sim POS TP a s"
      "\<And>F. cont (F + k) ?B (tail_code entry_state ?B) (entry_mstate i) = cont F ?B [Ret None] s"
      by (auto simp: reaches_def t9)
    have "execute (F + Suc k) ?g i = Some (Inr s)" for F
      using start[of "F + k"] s(2)[of F] by (simp add: cont_def)
    then show ?thesis using cg Inr s(1)
      by (intro exI[of _ ?g] exI[of _ "Suc k"]) auto
  qed
qed

lemma in_bounds_small: "in_bounds 0" "in_bounds 1"
  by (simp_all add: in_bounds_def TAPE_SIZE_def)

lemma bf_body_unfold:
  "bf_body (Suc f) cs a =
     (case bf_nodes f cs a of
        Some (Inr a') \<Rightarrow>
          if \<not> in_bounds (bf_ptr a') then Some (Inl OutOfBounds)
          else if cell_zero a' then Some (Inr a')
          else bf_body f cs a'
      | r \<Rightarrow> r)"
  by simp

lemma abstract_run_example:
  "bf_nodes (Suc (Suc (Suc (Suc (Suc 0)))))
     [IncrementNode, IncrementNode, MoveRightNode, IncrementNode, IncrementNode,
      IncrementNode, IncrementNode, IncrementNode,
      ConditionalGroupNode [MoveLeftNode, IncrementNode, MoveRightNode, DecrementNode],
      MoveLeftNode, PutCharNode] (BF 0 (\<lambda>_. 0) i [])
   = Some (Inr (BF 0 ((\<lambda>_. 0)(0 := 7, 1 := 0)) i [7]))"
  by (simp add: in_bounds_small cell_zero_def fun_upd_twist)

lemma translate_simulation:
  assumes "ProgramNode_try_parse src = (ProgramNode cs, rest)"
    and "bf_nodes f cs (BF 0 (\<lambda>_. 0) i []) = Some (Inr a)"
  shows "\<exists>g k s. translate src = Some g \<and> sim POS TP a s \<and>
           (\<forall>F. execute (F + k) g i = Some (Inr s))"
  using program_simulation[OF assms(2)] assms(1)
  by (auto simp: translate_def simp del: ProgramNode_codegen.simps)

lemma parse_example:
  "ProgramNode_try_parse ''++>+++++[<+>-]<.'' =
     (ProgramNode
        [IncrementNode, IncrementNode, MoveRightNode, IncrementNode, IncrementNode,
         IncrementNode, IncrementNode, IncrementNode,
         ConditionalGroupNode [MoveLeftNode, IncrementNode, MoveRightNode, DecrementNode],
         MoveLeftNode, PutCharNode], [])"
  using ProgramNode_try_parse_printed[of
      "[IncrementNode, IncrementNode, MoveRightNode, IncrementNode, IncrementNode,
        IncrementNode, IncrementNode, IncrementNode,
        ConditionalGroupNode [MoveLeftNode, IncrementNode, MoveRightNode, DecrementNode],
        MoveLeftNode, PutCharNode]"]
  by simp

text \<open>
  C2: the input \<open>++>+++++[<+>-]<.\<close> parses into Increment, Increment, MoveRight, five
  Increments, a Loop of MoveLeft, Increment, MoveRight, Decrement, then MoveLeft and Output;
  the generated code, run with enough fuel on any input, returns, and its output is the
  single byte 7.
\<close>

theorem example_program_prints_seven:
  "ProgramNode_try_parse ''++>+++++[<+>-]<.'' =
     (ProgramNode
        [IncrementNode, IncrementNode, MoveRightNode, IncrementNode, IncrementNode,
         IncrementNode, IncrementNode, IncrementNode,
         ConditionalGroupNode [MoveLeftNode, IncrementNode, MoveRightNode, DecrementNode],
         MoveLeftNode, PutCharNode], [])
   \<and> (\<exists>g k s. translate ''++>+++++[<+>-]<.'' = Some g \<and>
          (\<forall>F. execute (F + k) g i = Some (Inr s)) \<and> stdout s = [7] \<and> stdin s = i)"
proof -
  from translate_simulation[OF parse_example abstract_run_example, of i]
  obtain g k s where "translate ''++>+++++[<+>-]<.'' = Some g"
    "sim POS TP (BF 0 ((\<lambda>_. 0)(0 := 7, 1 := 0)) i [7]) s"
    "\<forall>F. execute (F + k) g i = Some (Inr s)" by blast
  then have "translate ''++>+++++[<+>-]<.'' = Some g \<and>
          (\<forall>F. execute (F + k) g i = Some (Inr s)) \<and> stdout s = [7] \<and> stdin s = i"
    by (simp add: sim_def)
  then show ?thesis using parse_example by blast
qed

lemma parse_io: "ProgramNode_try_parse '',.'' = (ProgramNode [GetCharNode, PutCharNode], [])"
  using ProgramNode_try_parse_printed[of "[GetCharNode, PutCharNode]"] by simp

lemma abstract_run_io:
  "bf_nodes 0 [GetCharNode, PutCharNode] (BF 0 (\<lambda>_. 0) i [])
   = Some (Inr (BF 0 ((\<lambda>_. 0)(0 := ucast (getchar_result i))) (tl i)
        [ucast (getchar_result i)]))"
  by (simp add: in_bounds_small)

lemma codegen_io:
  "codegen_children [GetCharNode, PutCharNode] entry_state = Some g \<Longrightarrow>
   blocks (CreateRet None g) =
     [prologue @
      [Call 2 (FunctionType Int32Ty []) ''getchar'' [],
       Cast TruncOp 3 (Reg 2) Int8Ty,
       Load 4 Int64Ty (Reg 0),
       GEP 5 (ArrayTy Int8Ty TAPE_SIZE) (Reg 1) [ConstantInt Int8Ty 0, Reg 4],
       Store (Reg 3) (Reg 5),
       Load 6 Int64Ty (Reg 0),
       GEP 7 (ArrayTy Int8Ty TAPE_SIZE) (Reg 1) [ConstantInt Int8Ty 0, Reg 6],
       Load 8 Int8Ty (Reg 7),
       Call 9 (FunctionType Int32Ty [Int8Ty]) ''putchar'' [Reg 8],
       Ret None]]"
proof -
  assume a: "codegen_children [GetCharNode, PutCharNode] entry_state = Some g"
  have nv: "named_values entry_state ''position'' = Some POS"
    "named_values entry_state ''tape'' = Some TP"
    by (simp_all add: entry_state_def)
  let ?g1 = "advance (leaf_regs GetCharNode) (leaf_code GetCharNode (next_reg entry_state) POS TP)
               (leaf_decl GetCharNode entry_state)"
  have 1: "codegen GetCharNode entry_state = Some ?g1"
    by (rule codegen_leaf[OF nv]) simp
  have nv1: "named_values ?g1 ''position'' = Some POS" "named_values ?g1 ''tape'' = Some TP"
    by (simp_all add: advance_fields leaf_decl_fields nv)
  let ?g2 = "advance (leaf_regs PutCharNode) (leaf_code PutCharNode (next_reg ?g1) POS TP)
               (leaf_decl PutCharNode ?g1)"
  have 2: "codegen PutCharNode ?g1 = Some ?g2"
    by (rule codegen_leaf[OF nv1]) simp
  have g: "g = ?g2" using a 1 2 by (simp del: codegen.simps)
  have ib: "insert_block entry_state = Some 0" by (simp add: entry_state_def)
  show ?thesis
    unfolding g
    by (simp add: Create_advance blocks_advance advance_fields leaf_decl_fields ib
        leaf_code_def cell_addr_def leaf_regs_def eval_nat_numeral)
       (simp add: entry_state_def)
qed

text \<open>
  C9: the code generated for \<open>,.\<close> consists of the prologue, one call of \<open>getchar\<close>, the
  truncation of its result, one store of that byte into the current cell, one call of
  \<open>putchar\<close> on the loaded cell, and the return.  Running it consumes one input value,
  outputs exactly that byte, leaves the pointer at 0 and changes no cell but cell 0.
\<close>

theorem io_pass_through:
  "\<exists>g k s. translate '',.'' = Some g \<and>
     blocks g =
       [prologue @
        [Call 2 (FunctionType Int32Ty []) ''getchar'' [],
         Cast TruncOp 3 (Reg 2) Int8Ty,
         Load 4 Int64Ty (Reg 0),
         GEP 5 (ArrayTy Int8Ty TAPE_SIZE) (Reg 1) [ConstantInt Int8Ty 0, Reg 4],
         Store (Reg 3) (Reg 5),
         Load 6 Int64Ty (Reg 0),
         GEP 7 (ArrayTy Int8Ty TAPE_SIZE) (Reg 1) [ConstantInt Int8Ty 0, Reg 6],
         Load 8 Int8Ty (Reg 7),
         Call 9 (FunctionType Int32Ty [Int8Ty]) ''putchar'' [Reg 8],
         Ret None]] \<and>
     (\<forall>F. execute (F + k) g i = Some (Inr s)) \<and>
     stdin s = tl i \<and>
     stdout s = [ucast (getchar_result i)] \<and>
     mem s 0 = Some (ObjI64 (Some 0)) \<and>
     mem s 1 = Some (ObjArrI8 TAPE_SIZE
                (\<lambda>j. Some (if j = 0 then ucast (getchar_result i) else 0)))"
proof -
  from translate_simulation[OF parse_io abstract_run_io, of i]
  obtain g k s where g: "translate '',.'' = Some g"
    and sm: "sim POS TP (BF 0 ((\<lambda>_. 0)(0 := ucast (getchar_result i))) (tl i)
               [ucast (getchar_result i)]) s"
    and ex: "\<forall>F. execute (F + k) g i = Some (Inr s)" by blast
  from g obtain g9 where g9: "codegen_children [GetCharNode, PutCharNode] entry_state = Some g9"
    "g = CreateRet None g9"
    by (auto simp: translate_def parse_io ProgramNode_codegen_init
        simp del: ProgramNode_codegen.simps codegen_children.simps split: option.splits)
  have bl: "blocks g = [prologue @
        [Call 2 (FunctionType Int32Ty []) ''getchar'' [],
         Cast TruncOp 3 (Reg 2) Int8Ty,
         Load 4 Int64Ty (Reg 0),
         GEP 5 (ArrayTy Int8Ty TAPE_SIZE) (Reg 1) [ConstantInt Int8Ty 0, Reg 4],
         Store (Reg 3) (Reg 5),
         Load 6 Int64Ty (Reg 0),
         GEP 7 (ArrayTy Int8Ty TAPE_SIZE) (Reg 1) [ConstantInt Int8Ty 0, Reg 6],
         Load 8 Int8Ty (Reg 7),
         Call 9 (FunctionType Int32Ty [Int8Ty]) ''putchar'' [Reg 8],
         Ret None]]"
    unfolding g9(2) using g9(1) by (rule codegen_io)
  have "mem s 1 = Some (ObjArrI8 TAPE_SIZE
                (\<lambda>j. Some (if j = 0 then ucast (getchar_result i) else 0)))"
    using sm by (simp add: sim_def fun_upd_def)
  then show ?thesis using g bl ex sm by (auto simp: sim_def)
qed

lemma translate_simulation_error:
  assumes "ProgramNode_try_parse src = (ProgramNode cs, rest)"
    and "bf_nodes f cs (BF 0 (\<lambda>_. 0) i []) = Some (Inl e)"
  shows "\<exists>g k. translate src = Some g \<and> (\<forall>F. execute (F + k) g i = Some (Inl e))"
  using program_simulation[OF assms(2)] assms(1)
  by (auto simp: translate_def simp del: ProgramNode_codegen.simps)

lemma print_replicate:
  "concat (map debug_print (replicate n IncrementNode)) = replicate n (CHR ''+'')"
  "concat (map debug_print (replicate n MoveRightNode)) = replicate n (CHR ''>'')"
  by (induction n) simp_all

lemma parse_increments:
  "ProgramNode_try_parse (replicate n (CHR ''+'')) = (ProgramNode (replicate n IncrementNode), [])"
  using ProgramNode_try_parse_printed[of "replicate n IncrementNode"]
  by (simp add: print_replicate)

lemma parse_moves_then_increment:
  "ProgramNode_try_parse (replicate n (CHR ''>'') @ ''+'')
     = (ProgramNode (replicate n MoveRightNode @ [IncrementNode]), [])"
  using ProgramNode_try_parse_printed[of "replicate n MoveRightNode @ [IncrementNode]"]
  by (simp add: print_replicate)

lemma bf_increments:
  "in_bounds p \<Longrightarrow>
   bf_nodes f (replicate n IncrementNode) (BF p t i out)
     = Some (Inr (BF p (t(sint p := t (sint p) + of_nat n)) i out))"
proof (induction n arbitrary: t)
  case 0
  show ?case by simp
next
  case (Suc n)
  let ?t = "t(sint p := t (sint p) + 1)"
  have "bf_nodes f (replicate (Suc n) IncrementNode) (BF p t i out)
          = bf_nodes f (replicate n IncrementNode) (BF p ?t i out)"
    using Suc.prems by simp
  also have "\<dots> = Some (Inr (BF p (?t(sint p := ?t (sint p) + of_nat n)) i out))"
    using Suc.prems by (rule Suc.IH)
  also have "?t(sint p := ?t (sint p) + of_nat n) = t(sint p := t (sint p) + of_nat (Suc n))"
    by (simp add: ac_simps)
  finally show ?case .
qed

lemma bf_moves:
  "bf_nodes f (replicate n MoveRightNode @ rest) (BF p t i out)
     = bf_nodes f rest (BF (p + of_nat n) t i out)"
proof (induction n arbitrary: p)
  case 0
  show ?case by simp
next
  case (Suc n)
  show ?case using Suc.IH[of "p + 1"] by (simp add: ac_simps)
qed

lemma parse_single:
  "ProgramNode_try_parse ''-'' = (ProgramNode [DecrementNode], [])"
  "ProgramNode_try_parse ''<+'' = (ProgramNode [MoveLeftNode, IncrementNode], [])"
  "ProgramNode_try_parse ''[]'' = (ProgramNode [ConditionalGroupNode []], [])"
  using ProgramNode_try_parse_printed[of "[DecrementNode]"]
    ProgramNode_try_parse_printed[of "[MoveLeftNode, IncrementNode]"]
    ProgramNode_try_parse_printed[of "[ConditionalGroupNode []]"]
  by simp_all

text \<open>
  C5: after \<open>n\<close> Increment instructions cell 0 holds \<open>n\<close> modulo 256; after 256 of them
  the whole tape is zero again; a single Decrement on the zero cell gives 255.
\<close>

theorem cell_arithmetic_wraps:
  "(\<exists>g k s. translate (replicate n (CHR ''+'')) = Some g \<and>
       (\<forall>F. execute (F + k) g i = Some (Inr s)) \<and>
       mem s 1 = Some (ObjArrI8 TAPE_SIZE (\<lambda>j. Some (if j = 0 then of_nat n else 0))))
   \<and> unat (of_nat n :: 8 word) = n mod 256
   \<and> (\<exists>g k s. translate (replicate 256 (CHR ''+'')) = Some g \<and>
       (\<forall>F. execute (F + k) g i = Some (Inr s)) \<and>
       mem s 1 = Some (ObjArrI8 TAPE_SIZE (\<lambda>j. Some 0)))
   \<and> (\<exists>g k s. translate ''-'' = Some g \<and>
       (\<forall>F. execute (F + k) g i = Some (Inr s)) \<and>
       mem s 1 = Some (ObjArrI8 TAPE_SIZE (\<lambda>j. Some (if j = 0 then 255 else 0))))"
proof -
  have inc: "\<exists>g k s. translate (replicate m (CHR ''+'')) = Some g \<and>
       (\<forall>F. execute (F + k) g i = Some (Inr s)) \<and>
       mem s 1 = Some (ObjArrI8 TAPE_SIZE (\<lambda>j. Some (if j = 0 then of_nat m else 0)))" for m
  proof -
    have "bf_nodes 0 (replicate m IncrementNode) (BF 0 (\<lambda>_. 0) i [])
            = Some (Inr (BF 0 ((\<lambda>_. 0)(0 := of_nat m)) i []))"
      using bf_increments[OF in_bounds_small(1), of 0 m "\<lambda>_. 0" i "[]"] by simp
    from translate_simulation[OF parse_increments this]
    obtain g k s where "translate (replicate m (CHR ''+'')) = Some g"
      "sim POS TP (BF 0 ((\<lambda>_. 0)(0 := of_nat m)) i []) s"
      "\<forall>F. execute (F + k) g i = Some (Inr s)" by blast
    then show ?thesis by (auto simp: sim_def fun_upd_def)
  qed
  have dec: "\<exists>g k s. translate ''-'' = Some g \<and>
       (\<forall>F. execute (F + k) g i = Some (Inr s)) \<and>
       mem s 1 = Some (ObjArrI8 TAPE_SIZE (\<lambda>j. Some (if j = 0 then 255 else 0)))"
  proof -
    have "(0 - 1 :: 8 word) = 255" by simp
    then have "bf_nodes 0 [DecrementNode] (BF 0 (\<lambda>_. 0) i [])
            = Some (Inr (BF 0 ((\<lambda>_. 0)(0 := 255)) i []))"
      by (simp add: in_bounds_small del: diff_0)
    from translate_simulation[OF parse_single(1) this]
    obtain g k s where "translate ''-'' = Some g"
      "sim POS TP (BF 0 ((\<lambda>_. 0)(0 := 255)) i []) s"
      "\<forall>F. execute (F + k) g i = Some (Inr s)" by blast
    then show ?thesis by (auto simp: sim_def fun_upd_def)
  qed
  have w: "unat (of_nat n :: 8 word) = n mod 256"
    by (simp add: unat_of_nat)
  have z: "(\<lambda>j::int. Some (if j = 0 then (of_nat 256 :: 8 word) else 0)) = (\<lambda>j. Some 0)"
    by (rule ext) simp
  show ?thesis using inc[of n] inc[of 256] dec w unfolding z by blast
qed

lemma node_effect_leaf:
  assumes "gen_ok g pos tp" "\<forall>cs. n \<noteq> ConditionalGroupNode cs"
  shows "node_effect g n s = exec_instrs (leaf_code n (next_reg g) pos tp) s"
proof -
  from assms(1) obtain b where b: "insert_block g = Some b" "b < length (blocks g)"
    and nv: "named_values g ''position'' = Some pos" "named_values g ''tape'' = Some tp"
    by (rule gen_okE)
  let ?g' = "advance (leaf_regs n) (leaf_code n (next_reg g) pos tp) (leaf_decl n g)"
  have cg: "codegen n g = Some ?g'" using nv assms(2) by (rule codegen_leaf)
  have "blocks ?g' ! b = blocks g ! b @ leaf_code n (next_reg g) pos tp"
    using b by (simp add: blocks_advance leaf_decl_fields)
  with b(1) have "tail_code g (blocks ?g') = leaf_code n (next_reg g) pos tp"
    by (rule tail_code_eq)
  then show ?thesis by (simp add: node_effect_def cg del: codegen.simps)
qed

lemma node_effect_sim:
  assumes "gen_ok g pos tp" "sim pos tp a s" "\<forall>cs. n \<noteq> ConditionalGroupNode cs"
  shows "case bf_leaf n a of
           Inl e \<Rightarrow> node_effect g n s = Inl e
         | Inr a' \<Rightarrow> (\<exists>s'. node_effect g n s = Inr s' \<and> sim pos tp a' s')"
proof -
  from assms(1) have "fst pos < next_reg g" "fst tp < next_reg g" by (auto elim: gen_okE)
  from exec_leaf[OF assms(2) this assms(3)] show ?thesis
    unfolding node_effect_leaf[OF assms(1,3)] .
qed

lemma word64_bounds:
  "sint (0 - 1 :: 64 word) = - 1" "\<not> in_bounds (0 - 1)"
  "sint (of_nat TAPE_SIZE :: 64 word) = int TAPE_SIZE" "\<not> in_bounds (of_nat TAPE_SIZE)"
  "in_bounds (of_nat (TAPE_SIZE - 1))" "(of_nat (TAPE_SIZE - 1) + 1 :: 64 word) = of_nat TAPE_SIZE"
  by (simp_all add: in_bounds_def TAPE_SIZE_def)

text \<open>
  C8: in every state MoveLeft decrements and MoveRight increments the 64-bit pointer, with
  no bounds check: from 0 the pointer becomes -1, from \<open>TAPE_SIZE - 1\<close> it becomes
  \<open>TAPE_SIZE\<close>.  With the pointer outside the tape, the cell accesses of Increment,
  Decrement, Output and Input are out of bounds; so are the runs of \<open><+\<close> and of
  \<open>TAPE_SIZE\<close> times \<open>>\<close> followed by \<open>+\<close>.
\<close>

theorem pointer_moves_unchecked:
  assumes "gen_ok g pos tp" "sim pos tp (BF p t i out) s"
  shows "(\<exists>s'. node_effect g MoveLeftNode s = Inr s' \<and> sim pos tp (BF (p - 1) t i out) s')
       \<and> (\<exists>s'. node_effect g MoveRightNode s = Inr s' \<and> sim pos tp (BF (p + 1) t i out) s')
       \<and> (\<not> in_bounds p \<longrightarrow>
            node_effect g IncrementNode s = Inl OutOfBounds \<and>
            node_effect g DecrementNode s = Inl OutOfBounds \<and>
            node_effect g PutCharNode s = Inl OutOfBounds \<and>
            node_effect g GetCharNode s = Inl OutOfBounds)
       \<and> in_bounds 0 \<and> sint (0 - 1 :: 64 word) = - 1 \<and> \<not> in_bounds (0 - 1)
       \<and> in_bounds (of_nat (TAPE_SIZE - 1))
       \<and> (of_nat (TAPE_SIZE - 1) + 1 :: 64 word) = of_nat TAPE_SIZE
       \<and> sint (of_nat TAPE_SIZE :: 64 word) = int TAPE_SIZE
       \<and> \<not> in_bounds (of_nat TAPE_SIZE)
       \<and> (\<exists>g' k. translate ''<+'' = Some g' \<and>
             (\<forall>F. execute (F + k) g' inp = Some (Inl OutOfBounds)))
       \<and> (\<exists>g' k. translate (replicate TAPE_SIZE (CHR ''>'') @ ''+'') = Some g' \<and>
             (\<forall>F. execute (F + k) g' inp = Some (Inl OutOfBounds)))"
proof -
  note ns = node_effect_sim[OF assms]
  have l: "\<exists>s'. node_effect g MoveLeftNode s = Inr s' \<and> sim pos tp (BF (p - 1) t i out) s'"
    using ns[of MoveLeftNode] by simp
  have r: "\<exists>s'. node_effect g MoveRightNode s = Inr s' \<and> sim pos tp (BF (p + 1) t i out) s'"
    using ns[of MoveRightNode] by simp
  have f: "node_effect g IncrementNode s = Inl OutOfBounds \<and>
           node_effect g DecrementNode s = Inl OutOfBounds \<and>
           node_effect g PutCharNode s = Inl OutOfBounds \<and>
           node_effect g GetCharNode s = Inl OutOfBounds" if "\<not> in_bounds p"
    using ns[of IncrementNode] ns[of DecrementNode] ns[of PutCharNode] ns[of GetCharNode] that
    by simp
  have "bf_nodes 0 [MoveLeftNode, IncrementNode] (BF 0 (\<lambda>_. 0) inp []) = Some (Inl OutOfBounds)"
    using word64_bounds(2) by simp
  from translate_simulation_error[OF parse_single(2) this]
  have left: "\<exists>g' k. translate ''<+'' = Some g' \<and>
             (\<forall>F. execute (F + k) g' inp = Some (Inl OutOfBounds))" .
  have "bf_nodes 0 (replicate TAPE_SIZE MoveRightNode @ [IncrementNode]) (BF 0 (\<lambda>_. 0) inp [])
          = Some (Inl OutOfBounds)"
    using word64_bounds(4) by (simp add: bf_moves)
  from translate_simulation_error[OF parse_moves_then_increment this]
  have right: "\<exists>g' k. translate (replicate TAPE_SIZE (CHR ''>'') @ ''+'') = Some g' \<and>
             (\<forall>F. execute (F + k) g' inp = Some (Inl OutOfBounds))" .
  show ?thesis
    using l r f left right word64_bounds in_bounds_small(1) by blast
qed

theorem pointer_moves_unchecked_witness:
  "gen_ok entry_state POS TP \<and> sim POS TP (BF (- 1) (\<lambda>_. 0) [] []) stray_mstate \<and>
   \<not> in_bounds (- 1) \<and>
   (\<exists>s'. node_effect entry_state MoveLeftNode stray_mstate = Inr s' \<and>
          sim POS TP (BF (- 2) (\<lambda>_. 0) [] []) s') \<and>
   (\<exists>s'. node_effect entry_state MoveRightNode stray_mstate = Inr s' \<and>
          sim POS TP (BF 0 (\<lambda>_. 0) [] []) s') \<and>
   node_effect entry_state IncrementNode stray_mstate = Inl OutOfBounds \<and>
   node_effect entry_state PutCharNode stray_mstate = Inl OutOfBounds"
proof -
  have s: "sim POS TP (BF (- 1) (\<lambda>_. 0) [] []) stray_mstate"
    by (simp add: sim_def stray_mstate_def)
  have nb: "\<not> in_bounds (- 1)" by (simp add: in_bounds_def)
  show ?thesis
    using pointer_moves_unchecked[OF entry_state_ok s, of "[]"] s nb entry_state_ok by simp
qed

lemma minus_one_32: "(- 1 :: 32 word) = 4294967295"
  by simp

lemma ucast_EOF: "(ucast (- 1 :: 32 word) :: 8 word) = 255"
  unfolding minus_one_32 by simp

text \<open>
  C10: Input stores the low byte of the value returned by \<open>getchar\<close> into the current
  cell, that is the value modulo 256; at the end of input \<open>getchar\<close> returns -1 and the
  cell becomes 255.
\<close>

theorem input_truncated_to_byte:
  assumes "gen_ok g pos tp" "sim pos tp (BF p t i out) s" "in_bounds p"
  shows "(\<exists>s'. node_effect g GetCharNode s = Inr s' \<and>
            sim pos tp (BF p (t(sint p := ucast (getchar_result i))) (tl i) out) s')
       \<and> uint (ucast (getchar_result i) :: 8 word) = uint (getchar_result i) mod 256
       \<and> getchar_result (v # rest) = v
       \<and> getchar_result [] = - 1
       \<and> (ucast (- 1 :: 32 word) :: 8 word) = 255"
proof -
  have "\<exists>s'. node_effect g GetCharNode s = Inr s' \<and>
            sim pos tp (BF p (t(sint p := ucast (getchar_result i))) (tl i) out) s'"
    using node_effect_sim[OF assms(1,2), of GetCharNode] assms(3) by simp
  moreover have "uint (ucast (getchar_result i) :: 8 word) = uint (getchar_result i) mod 256"
    by (simp add: unsigned_ucast_eq take_bit_eq_mod)
  ultimately show ?thesis by (simp add: getchar_result_def EOF_def ucast_EOF)
qed

theorem input_truncated_to_byte_witness:
  "gen_ok entry_state POS TP \<and> sim POS TP (BF 0 (\<lambda>_. 0) [] []) (entry_mstate []) \<and>
   in_bounds 0 \<and>
   (\<exists>s'. node_effect entry_state GetCharNode (entry_mstate []) = Inr s' \<and>
          sim POS TP (BF 0 ((\<lambda>_. 0)(0 := 255)) [] []) s')"
  using input_truncated_to_byte[OF entry_state_ok entry_sim in_bounds_small(1), of "[]"]
    entry_state_ok entry_sim[of "[]"] in_bounds_small(1)
  by (simp add: getchar_result_def EOF_def ucast_EOF)

lemma fold_bind_None: "fold (\<lambda>n go. Option.bind go (codegen n)) ns None = None"
  by (induction ns) simp_all

lemma codegen_children_fold:
  "codegen_children ns g = fold (\<lambda>n go. Option.bind go (codegen n)) ns (Some g)"
proof (induction ns arbitrary: g)
  case Nil
  show ?case by simp
next
  case (Cons n ns)
  show ?case
  proof (cases "codegen n g")
    case None
    then show ?thesis by (simp add: fold_bind_None del: codegen.simps)
  next
    case (Some g1)
    then show ?thesis using Cons.IH[of g1] by (simp del: codegen.simps)
  qed
qed

lemma is_leaf_iff: "is_leaf n \<longleftrightarrow> (\<forall>cs. n \<noteq> ConditionalGroupNode cs)"
  by (cases n) (simp_all add: is_leaf_def)

lemma straight_children:
  assumes "gen_ok g pos tp" "list_all is_leaf ns" "insert_block g = Some b"
  shows "\<exists>g'. codegen_children ns g = Some g' \<and> gen_ok g' pos tp \<and>
           insert_block g' = Some b \<and>
           blocks g' = (blocks g)[b := blocks g ! b @ straight_code ns (next_reg g) pos tp]"
  using assms
proof (induction ns arbitrary: g)
  case Nil
  then show ?case by simp
next
  case (Cons n ns)
  from Cons.prems(1) have bl: "b < length (blocks g)"
    and nv: "named_values g ''position'' = Some pos" "named_values g ''tape'' = Some tp"
    using Cons.prems(3) by (auto elim: gen_okE)
  have leaf: "\<forall>cs. n \<noteq> ConditionalGroupNode cs"
    using Cons.prems(2) by (simp add: is_leaf_iff)
  let ?code = "leaf_code n (next_reg g) pos tp"
  let ?g1 = "advance (leaf_regs n) ?code (leaf_decl n g)"
  have cg: "codegen n g = Some ?g1" using nv leaf by (rule codegen_leaf)
  have ok1: "gen_ok ?g1 pos tp"
    using gen_ok_leaf_decl[OF Cons.prems(1)] by (rule extends_advance(2))
  have ib1: "insert_block ?g1 = Some b"
    by (simp add: advance_fields leaf_decl_fields Cons.prems(3))
  have bl1: "blocks ?g1 = (blocks g)[b := blocks g ! b @ ?code]"
    by (simp add: blocks_advance leaf_decl_fields Cons.prems(3))
  have nr1: "next_reg ?g1 = next_reg g + leaf_regs n"
    by (simp add: advance_fields leaf_decl_fields)
  from Cons.IH[OF ok1 _ ib1] Cons.prems(2)
  obtain g' where g': "codegen_children ns ?g1 = Some g'" "gen_ok g' pos tp"
    "insert_block g' = Some b"
    "blocks g' = (blocks ?g1)[b := blocks ?g1 ! b @ straight_code ns (next_reg ?g1) pos tp]"
    by auto
  have "blocks g' = (blocks g)[b := blocks g ! b @ straight_code (n # ns) (next_reg g) pos tp]"
    using bl by (simp add: g'(4) bl1 nr1)
  then show ?case using cg g'(1,2,3) by (simp del: codegen.simps)
qed

lemma decls_leaf:
  "\<exists>fs. module_functions (leaf_decl n g) = module_functions g @ fs"
  by (cases n) (simp_all add: leaf_decl_def getOrInsertFunction_def)

lemma codegen_children_decls_aux:
  assumes "\<And>n g g'. n \<in> set ns \<Longrightarrow> gen_ok g pos tp \<Longrightarrow> codegen n g = Some g' \<Longrightarrow>
             \<exists>fs. module_functions g' = module_functions g @ fs"
    and "gen_ok g pos tp" "codegen_children ns g = Some g'"
  shows "\<exists>fs. module_functions g' = module_functions g @ fs"
  using assms
proof (induction ns arbitrary: g)
  case Nil
  then show ?case by simp
next
  case (Cons n ns)
  from codegen_ok[OF Cons.prems(2), of n] obtain g1 where
    g1: "codegen n g = Some g1" "gen_ok g1 pos tp" by blast
  have "\<exists>fs. module_functions g1 = module_functions g @ fs"
    using Cons.prems(1)[of n g g1] Cons.prems(2) g1(1) by simp
  then obtain fs where fs: "module_functions g1 = module_functions g @ fs" ..
  have cg2: "codegen_children ns g1 = Some g'" using Cons.prems(3) g1(1) by simp
  have "\<exists>fs'. module_functions g' = module_functions g1 @ fs'"
  proof (rule Cons.IH[OF _ g1(2) cg2])
    fix m h h'
    assume "m \<in> set ns" "gen_ok h pos tp" "codegen m h = Some h'"
    then show "\<exists>fs. module_functions h' = module_functions h @ fs"
      using Cons.prems(1)[of m h h'] by simp
  qed
  then show ?case using fs by auto
qed

lemma codegen_leaf_decls:
  assumes "gen_ok g pos tp" "\<forall>cs. n \<noteq> ConditionalGroupNode cs" "codegen n g = Some g'"
  shows "\<exists>fs. module_functions g' = module_functions g @ fs"
proof -
  from assms(1) have nv: "named_values g ''position'' = Some pos"
    "named_values g ''tape'' = Some tp" by (auto elim: gen_okE)
  have "g' = advance (leaf_regs n) (leaf_code n (next_reg g) pos tp) (leaf_decl n g)"
    using codegen_leaf[OF nv assms(2)] assms(3) by simp
  then have "module_functions g' = module_functions (leaf_decl n g)"
    by (simp add: advance_fields)
  then show ?thesis using decls_leaf[of n g] by simp
qed

lemma codegen_decls:
  assumes "gen_ok g pos tp" "codegen n g = Some g'"
  shows "\<exists>fs. module_functions g' = module_functions g @ fs"
  using assms
proof (induction n arbitrary: g g')
  case (ConditionalGroupNode cs)
  let ?ge = "enter_loop g pos tp"
  have oke: "gen_ok ?ge pos tp" using ConditionalGroupNode.prems(1) by (rule enter_loop_ok)
  from codegen_children_ok[OF oke, of cs]
  obtain g5 where g5: "codegen_children cs ?ge = Some g5" "extends ?ge g5" by blast
  have nv: "named_values g5 = named_values g"
    using g5(2) by (auto elim!: extendsE simp: enter_loop_fields)
  have g': "g' = leave_loop (length (blocks g)) g5 pos tp"
    using codegen_loop[OF ConditionalGroupNode.prems(1) g5(1) nv] ConditionalGroupNode.prems(2)
    by simp
  have "\<exists>fs. module_functions g5 = module_functions ?ge @ fs"
  proof (rule codegen_children_decls_aux[OF _ oke g5(1)])
    fix m h h'
    assume "m \<in> set cs" "gen_ok h pos tp" "codegen m h = Some h'"
    then show "\<exists>fs. module_functions h' = module_functions h @ fs"
      by (rule ConditionalGroupNode.IH)
  qed
  then show ?case by (simp add: g' leave_loop_fields enter_loop_fields)
next
  case IncrementNode
  show ?case by (rule codegen_leaf_decls[OF IncrementNode(1) _ IncrementNode(2)]) simp
next
  case DecrementNode
  show ?case by (rule codegen_leaf_decls[OF DecrementNode(1) _ DecrementNode(2)]) simp
next
  case MoveLeftNode
  show ?case by (rule codegen_leaf_decls[OF MoveLeftNode(1) _ MoveLeftNode(2)]) simp
next
  case MoveRightNode
  show ?case by (rule codegen_leaf_decls[OF MoveRightNode(1) _ MoveRightNode(2)]) simp
next
  case PutCharNode
  show ?case by (rule codegen_leaf_decls[OF PutCharNode(1) _ PutCharNode(2)]) simp
next
  case GetCharNode
  show ?case by (rule codegen_leaf_decls[OF GetCharNode(1) _ GetCharNode(2)]) simp
qed

lemma codegen_children_decls:
  assumes "gen_ok g pos tp" "codegen_children ns g = Some g'"
  shows "\<exists>fs. module_functions g' = module_functions g @ fs"
  using codegen_children_decls_aux[OF _ assms] codegen_decls by blast

lemma program_entry_shape:
  "\<exists>g9 b9.
     codegen_children cs entry_state = Some g9 \<and> insert_block g9 = Some b9 \<and>
     ProgramNode_codegen (ProgramNode cs) llvm_init = Some (CreateRet None g9) \<and>
     blocks (CreateRet None g9) ! b9 = blocks g9 ! b9 @ [Ret None] \<and>
     hd (module_functions (CreateRet None g9)) = (''main'', FunctionType VoidTy []) \<and>
     take 4 (blocks (CreateRet None g9) ! 0) =
       [Alloca 0 Int64Ty, Store (ConstantInt Int64Ty 0) (Reg 0),
        Alloca 1 (ArrayTy Int8Ty 16384),
        Store (ConstantAggregateZero (ArrayTy Int8Ty 16384)) (Reg 1)] \<and>
     named_values g9 ''position'' = Some (0, Int64Ty) \<and>
     named_values g9 ''tape'' = Some (1, ArrayTy Int8Ty 16384) \<and>
     TAPE_SIZE = 16384 \<and>
     blocks entry_state = [prologue] \<and>
     module_functions entry_state = [(''main'', FunctionType VoidTy [])] \<and>
     exec_instrs prologue (initial_mstate inp) = Inr (entry_mstate inp) \<and>
     mem (entry_mstate inp) 0 = Some (ObjI64 (Some 0)) \<and>
     mem (entry_mstate inp) 1 = Some (ObjArrI8 16384 (\<lambda>_. Some 0))"
proof -
  from codegen_children_ok[OF entry_state_ok, of cs]
  obtain g9 where g9: "codegen_children cs entry_state = Some g9" "gen_ok g9 POS TP"
    "extends entry_state g9" by blast
  from g9(2) obtain b9 where b9: "insert_block g9 = Some b9" "b9 < length (blocks g9)"
    and nv: "named_values g9 ''position'' = Some POS" "named_values g9 ''tape'' = Some TP"
    by (rule gen_okE)
  let ?g = "CreateRet None g9"
  have B: "blocks ?g = (blocks g9)[b9 := blocks g9 ! b9 @ [Ret None]]"
    using b9 by (simp add: Create_advance blocks_advance)
  have ret: "blocks ?g ! b9 = blocks g9 ! b9 @ [Ret None]" using b9 by (simp add: B)
  from codegen_children_decls[OF entry_state_ok g9(1)]
  have "hd (module_functions g9) = (''main'', FunctionType VoidTy [])"
    by (auto simp: entry_state_def)
  then have main: "hd (module_functions ?g) = (''main'', FunctionType VoidTy [])"
    by (simp add: Create_advance advance_fields)
  have "grows (blocks entry_state) (blocks g9)" using g9(3) by (rule extends_grows)
  from grows_nth[OF this, of 0] obtain zs where "blocks g9 ! 0 = prologue @ zs"
    by (auto simp: entry_state_def)
  then have "\<exists>ws. blocks ?g ! 0 = prologue @ ws"
    using b9 by (cases "b9 = 0") (simp_all add: B)
  then have pro: "take 4 (blocks ?g ! 0) = prologue"
    by (auto simp: prologue_def)
  show ?thesis
    using g9(1) b9(1) ret main pro nv exec_prologue[of inp]
    by (simp add: ProgramNode_codegen_init prologue_def TAPE_SIZE_def entry_state_def
        entry_mstate_def del: ProgramNode_codegen.simps)
qed

text \<open>
  C4: for every program, code generation from the initial module declares \<open>main\<close> with no
  parameters and result \<open>void\<close>, emits the allocation of the 64-bit position initialised
  to 0 and of the tape of \<open>TAPE_SIZE\<close> = 16384 bytes initialised to zero, then the code of
  all children in order, and finally \<open>ret void\<close>.  Executing the first four instructions
  gives pointer 0 and an all-zero tape.  The children are generated one after the other in
  their order: the builder state that receives the return is the left-to-right fold of
  the node code generators from the state after the prologue; for a program of simple
  commands the function is one block, the prologue, the commands' instruction sequences
  in that order, and the return; and running the generated function gives what running
  the children in order from the initial state gives.
\<close>

theorem program_entry_code:
  "\<exists>g9 b9.
     codegen_children cs entry_state = Some g9 \<and> insert_block g9 = Some b9 \<and>
     ProgramNode_codegen (ProgramNode cs) llvm_init = Some (CreateRet None g9) \<and>
     blocks (CreateRet None g9) ! b9 = blocks g9 ! b9 @ [Ret None] \<and>
     hd (module_functions (CreateRet None g9)) = (''main'', FunctionType VoidTy []) \<and>
     take 4 (blocks (CreateRet None g9) ! 0) =
       [Alloca 0 Int64Ty, Store (ConstantInt Int64Ty 0) (Reg 0),
        Alloca 1 (ArrayTy Int8Ty 16384),
        Store (ConstantAggregateZero (ArrayTy Int8Ty 16384)) (Reg 1)] \<and>
     named_values g9 ''position'' = Some (0, Int64Ty) \<and>
     named_values g9 ''tape'' = Some (1, ArrayTy Int8Ty 16384) \<and>
     TAPE_SIZE = 16384 \<and>
     blocks entry_state = [prologue] \<and>
     module_functions entry_state = [(''main'', FunctionType VoidTy [])] \<and>
     exec_instrs prologue (initial_mstate inp) = Inr (entry_mstate inp) \<and>
     mem (entry_mstate inp) 0 = Some (ObjI64 (Some 0)) \<and>
     mem (entry_mstate inp) 1 = Some (ObjArrI8 16384 (\<lambda>_. Some 0)) \<and>
     Some g9 = fold (\<lambda>n go. Option.bind go (codegen n)) cs (Some entry_state) \<and>
     (list_all is_leaf cs \<longrightarrow>
        blocks (CreateRet None g9) = [prologue @ straight_code cs 2 POS TP @ [Ret None]]) \<and>
     (bf_nodes f cs (BF 0 (\<lambda>_. 0) inp []) = Some r \<longrightarrow>
        (\<exists>k. case r of
               Inl e \<Rightarrow> \<forall>F. execute (F + k) (CreateRet None g9) inp = Some (Inl e)
             | Inr a \<Rightarrow> \<exists>s. sim POS TP a s \<and>
                         (\<forall>F. execute (F + k) (CreateRet None g9) inp = Some (Inr s))))"
proof -
  from program_entry_shape[of cs inp] obtain g9 b9 where
    shape: "codegen_children cs entry_state = Some g9 \<and> insert_block g9 = Some b9 \<and>
     ProgramNode_codegen (ProgramNode cs) llvm_init = Some (CreateRet None g9) \<and>
     blocks (CreateRet None g9) ! b9 = blocks g9 ! b9 @ [Ret None] \<and>
     hd (module_functions (CreateRet None g9)) = (''main'', FunctionType VoidTy []) \<and>
     take 4 (blocks (CreateRet None g9) ! 0) =
       [Alloca 0 Int64Ty, Store (ConstantInt Int64Ty 0) (Reg 0),
        Alloca 1 (ArrayTy Int8Ty 16384),
        Store (ConstantAggregateZero (ArrayTy Int8Ty 16384)) (Reg 1)] \<and>
     named_values g9 ''position'' = Some (0, Int64Ty) \<and>
     named_values g9 ''tape'' = Some (1, ArrayTy Int8Ty 16384) \<and>
     TAPE_SIZE = 16384 \<and>
     blocks entry_state = [prologue] \<and>
     module_functions entry_state = [(''main'', FunctionType VoidTy [])] \<and>
     exec_instrs prologue (initial_mstate inp) = Inr (entry_mstate inp) \<and>
     mem (entry_mstate inp) 0 = Some (ObjI64 (Some 0)) \<and>
     mem (entry_mstate inp) 1 = Some (ObjArrI8 16384 (\<lambda>_. Some 0))"
    by blast
  then have g9: "codegen_children cs entry_state = Some g9"
    and pc: "ProgramNode_codegen (ProgramNode cs) llvm_init = Some (CreateRet None g9)"
    by simp_all
  have fold: "Some g9 = fold (\<lambda>n go. Option.bind go (codegen n)) cs (Some entry_state)"
    using codegen_children_fold[of cs entry_state] g9 by simp
  have ib: "insert_block entry_state = Some 0" "next_reg entry_state = 2"
    "blocks entry_state = [prologue]"
    by (simp_all add: entry_state_def)
  have straight: "blocks (CreateRet None g9) = [prologue @ straight_code cs 2 POS TP @ [Ret None]]"
    if "list_all is_leaf cs"
  proof -
    from straight_children[OF entry_state_ok that ib(1)] g9
    have "insert_block g9 = Some 0"
      "blocks g9 = (blocks entry_state)[0 := blocks entry_state ! 0 @
                      straight_code cs (next_reg entry_state) POS TP]"
      by auto
    then show ?thesis
      unfolding Create_advance ib
      by (simp add: blocks_advance)
  qed
  have run: "\<exists>k. case r of
               Inl e \<Rightarrow> \<forall>F. execute (F + k) (CreateRet None g9) inp = Some (Inl e)
             | Inr a \<Rightarrow> \<exists>s. sim POS TP a s \<and>
                         (\<forall>F. execute (F + k) (CreateRet None g9) inp = Some (Inr s))"
    if "bf_nodes f cs (BF 0 (\<lambda>_. 0) inp []) = Some r"
    using program_simulation[OF that] pc by auto
  show ?thesis
    apply (rule exI[of _ g9], rule exI[of _ b9])
    using shape fold straight run by blast
qed

theorem program_entry_code_witness:
  "list_all is_leaf [IncrementNode, PutCharNode] \<and>
   bf_nodes 0 [IncrementNode, PutCharNode] (BF 0 (\<lambda>_. 0) [] [])
     = Some (Inr (BF 0 ((\<lambda>_. 0)(0 := 1)) [] [1])) \<and>
   (\<exists>g k s. ProgramNode_codegen (ProgramNode [IncrementNode, PutCharNode]) llvm_init = Some g \<and>
      blocks g = [prologue @ straight_code [IncrementNode, PutCharNode] 2 POS TP @ [Ret None]] \<and>
      sim POS TP (BF 0 ((\<lambda>_. 0)(0 := 1)) [] [1]) s \<and>
      (\<forall>F. execute (F + k) g [] = Some (Inr s)))"
proof -
  let ?cs = "[IncrementNode, PutCharNode]"
  let ?a = "BF 0 ((\<lambda>_. 0)(0 := 1)) [] [1]"
  have l: "list_all is_leaf ?cs" by (simp add: is_leaf_def)
  have b: "bf_nodes 0 ?cs (BF 0 (\<lambda>_. 0) [] []) = Some (Inr ?a)"
    by (simp add: in_bounds_small)
  from program_entry_code[of ?cs "[]" 0 "Inr ?a"]
  obtain g9 where pc: "ProgramNode_codegen (ProgramNode ?cs) llvm_init = Some (CreateRet None g9)"
    and st: "list_all is_leaf ?cs \<longrightarrow>
        blocks (CreateRet None g9) = [prologue @ straight_code ?cs 2 POS TP @ [Ret None]]"
    and rn: "bf_nodes 0 ?cs (BF 0 (\<lambda>_. 0) [] []) = Some (Inr ?a) \<longrightarrow>
        (\<exists>k. case Inr ?a of
               Inl e \<Rightarrow> \<forall>F. execute (F + k) (CreateRet None g9) [] = Some (Inl e)
             | Inr a \<Rightarrow> \<exists>s. sim POS TP a s \<and>
                         (\<forall>F. execute (F + k) (CreateRet None g9) [] = Some (Inr s)))"
    by blast
  from st l have bl: "blocks (CreateRet None g9)
      = [prologue @ straight_code ?cs 2 POS TP @ [Ret None]]" by blast
  from rn b obtain k s where "sim POS TP ?a s"
    "\<forall>F. execute (F + k) (CreateRet None g9) [] = Some (Inr s)" by auto
  with pc bl l b show ?thesis by blast
qed

lemma exec_loop_test:
  assumes "sim pos tp a s" "fst pos < r" "fst tp < r" "in_bounds (bf_ptr a)"
  shows "\<exists>s'. exec_block (loop_test r pos tp c m @ ys) s
                 = Inr (Some (if cell_zero a then m else c), s') \<and> sim pos tp a s'"
proof -
  obtain pv pt tv tt where [simp]: "pos = (pv, pt)" "tp = (tv, tt)"
    by (cases pos; cases tp)
  obtain p t i out where [simp]: "a = BF p t i out" by (cases a)
  let ?s' = "s\<lparr>regs := (regs s)(r \<mapsto> VI64 p, Suc r \<mapsto> VPtr tv (sint p),
               Suc (Suc r) \<mapsto> VI8 (t (sint p)), r + 3 \<mapsto> VI1 (t (sint p) \<noteq> 0))\<rparr>"
  have "sim pos tp a ?s'" using assms by (simp add: sim_def)
  moreover have "exec_block (loop_test r pos tp c m @ ys) s
                   = Inr (Some (if cell_zero a then m else c), ?s')"
    using assms
    by (simp add: sim_def loop_test_def nonzero_test_def cell_addr_def ret_reg_def
        set_reg_def bind2_def in_bounds_def cell_zero_def)
  ultimately show ?thesis by blast
qed

lemma empty_loop_blocks:
  "\<exists>g. translate ''[]'' = Some g \<and>
       blocks g = [prologue @ loop_test 2 POS TP 1 2, loop_test 6 POS TP 1 2, [Ret None]]"
proof -
  let ?ge = "enter_loop entry_state POS TP"
  have ib: "insert_block entry_state = Some 0" "0 < length (blocks entry_state)"
    by (simp_all add: entry_state_def)
  have es: "blocks entry_state = [prologue]" "next_reg entry_state = 2"
    "named_values (enter_loop entry_state POS TP) = named_values entry_state"
    by (simp_all add: entry_state_def enter_loop_fields)
  have cg: "codegen (ConditionalGroupNode []) entry_state = Some (leave_loop 1 ?ge POS TP)"
    using codegen_loop[OF entry_state_ok, of "[]" ?ge] es(3)
    by (simp add: es(1) del: codegen.simps)
  have be: "blocks ?ge = [prologue @ loop_test 2 POS TP 1 2, [], []]"
    by (simp add: blocks_enter_loop[OF ib] es numeral_2_eq_2)
  have bl: "blocks (leave_loop 1 ?ge POS TP)
              = [prologue @ loop_test 2 POS TP 1 2, loop_test 6 POS TP 1 2, []]"
    unfolding blocks_leave_loop[OF enter_loop_fields(1)] be
    by (simp add: enter_loop_fields es numeral_2_eq_2)
  have "blocks (CreateRet None (leave_loop 1 ?ge POS TP))
          = [prologue @ loop_test 2 POS TP 1 2, loop_test 6 POS TP 1 2, [Ret None]]"
    unfolding Create_advance blocks_advance[OF leave_loop_fields(1)] bl
    by (simp add: numeral_2_eq_2)
  then show ?thesis
    by (simp add: translate_def parse_single ProgramNode_codegen_init cg
        del: ProgramNode_codegen.simps codegen.simps)
qed

lemma empty_loop_run:
  "\<exists>g s. translate ''[]'' = Some g \<and>
         blocks g = [prologue @ loop_test 2 POS TP 1 2, loop_test 6 POS TP 1 2, [Ret None]] \<and>
         (\<forall>F. execute (F + 2) g inp = Some (Inr s)) \<and>
         stdout s = [] \<and> stdin s = inp"
proof -
  from empty_loop_blocks obtain g where g: "translate ''[]'' = Some g"
    "blocks g = [prologue @ loop_test 2 POS TP 1 2, loop_test 6 POS TP 1 2, [Ret None]]"
    by blast
  have ib: "in_bounds (bf_ptr (BF 0 (\<lambda>_. 0) inp []))" by (simp add: in_bounds_small)
  have "\<exists>s'. exec_block (loop_test 2 POS TP 1 2 @ []) (entry_mstate inp)
               = Inr (Some (if cell_zero (BF 0 (\<lambda>_. 0) inp []) then 2 else 1), s') \<and>
             sim POS TP (BF 0 (\<lambda>_. 0) inp []) s'"
    by (rule exec_loop_test[OF entry_sim _ _ ib]) simp_all
  then obtain s where s: "exec_block (loop_test 2 POS TP 1 2) (entry_mstate inp) = Inr (Some 2, s)"
    "sim POS TP (BF 0 (\<lambda>_. 0) inp []) s"
    by (auto simp: cell_zero_def)
  have B: "blocks g ! 0 = prologue @ loop_test 2 POS TP 1 2" "0 < length (blocks g)"
    "blocks g ! 2 = [Ret None]" "2 < length (blocks g)"
    by (simp_all add: g(2))
  have "execute (F + 2) g inp = Some (Inr s)" for F
  proof -
    have "execute (F + 2) g inp = run (Suc (Suc F)) (blocks g) 0 (initial_mstate inp)"
      by (simp add: execute_def del: run.simps)
    also have "\<dots> = cont (Suc F) (blocks g) (prologue @ loop_test 2 POS TP 1 2)
                        (initial_mstate inp)"
      by (simp only: run_Suc B if_True)
    also have "\<dots> = run (Suc F) (blocks g) 2 s"
      by (simp only: cont_def exec_block_append[OF prologue_straight] exec_prologue s(1)
          sum.case prod.case option.case)
    also have "\<dots> = cont F (blocks g) [Ret None] s"
      by (simp only: run_Suc B if_True)
    also have "\<dots> = Some (Inr s)"
      by (simp add: cont_def)
    finally show ?thesis .
  qed
  then show ?thesis using g s(2) by (auto simp: sim_def)
qed

text \<open>
  C1: a loop node is lowered to an entry test appended to the current block, which
  branches to the new body block when the current cell is non-zero and to the new merge
  block when it is zero; the children's code, emitted from the start of the body block
  and followed by the same test, which branches back to the start of the body block or on
  to the merge block; and the merge block, which is empty and becomes the insertion point.
  The children are generated one after the other in their order: the builder state after
  them is the left-to-right fold of the node code generators from the state at the start of
  the body block; when they are simple commands, the body block is their instruction
  sequences in that order followed by the test; and in every function that contains the
  blocks of the loop, running from the entry test does what the loop does: its children,
  in order, again and again until the test fails, and then on to the code after the loop.
  The code generated for \<open>[]\<close> has these three blocks; its run enters the entry block and
  the merge block only (fuel 2 is enough), reads no input and writes no output.
\<close>

theorem loop_lowering:
  assumes "gen_ok g pos tp" "sim pos tp a s" "in_bounds (bf_ptr a)"
    and "sim pos tp a5 s5" "in_bounds (bf_ptr a5)"
  shows "\<exists>b g5 b5 g' s1 s6.
     insert_block g = Some b \<and>
     codegen_children cs (enter_loop g pos tp) = Some g5 \<and> insert_block g5 = Some b5 \<and>
     codegen (ConditionalGroupNode cs) g = Some g' \<and>
     (let c = length (blocks g); m = c + 1 in
        blocks (enter_loop g pos tp)
          = (blocks g)[b := blocks g ! b @ loop_test (next_reg g) pos tp c m] @ [[], []] \<and>
        insert_block (enter_loop g pos tp) = Some c \<and>
        blocks g' = (blocks g5)[b5 := blocks g5 ! b5 @ loop_test (next_reg g5) pos tp c m] \<and>
        b5 < length (blocks g5) \<and> (b5 = c \<or> c + 2 \<le> b5) \<and>
        blocks g' ! b = blocks g ! b @ loop_test (next_reg g) pos tp c m \<and>
        blocks g' ! m = [] \<and> insert_block g' = Some m \<and>
        exec_block (tail_code g (blocks g')) s = Inr (Some (if cell_zero a then m else c), s1) \<and>
        sim pos tp a s1 \<and>
        exec_block (tail_code g5 (blocks g')) s5
          = Inr (Some (if cell_zero a5 then m else c), s6) \<and>
        sim pos tp a5 s6 \<and>
        Some g5 = fold (\<lambda>n go. Option.bind go (codegen n)) cs (Some (enter_loop g pos tp)) \<and>
        (list_all is_leaf cs \<longrightarrow>
           b5 = c \<and>
           blocks g' ! c = straight_code cs (next_reg g + 4) pos tp @
                           loop_test (next_reg g5) pos tp c m) \<and>
        (grows (blocks g') B \<and> bf_node f (ConditionalGroupNode cs) a = Some r \<longrightarrow>
           reaches B pos tp (tail_code g B) s r (tail_code g' B))) \<and>
     (\<exists>g0 s0. translate ''[]'' = Some g0 \<and>
        blocks g0 = [prologue @ loop_test 2 POS TP 1 2, loop_test 6 POS TP 1 2, [Ret None]] \<and>
        (\<forall>F. execute (F + 2) g0 inp = Some (Inr s0)) \<and> stdout s0 = [] \<and> stdin s0 = inp)"
proof -
  from assms(1) obtain b where b: "insert_block g = Some b" "b < length (blocks g)"
    and nv: "fst pos < next_reg g" "fst tp < next_reg g"
    by (rule gen_okE)
  let ?ge = "enter_loop g pos tp"
  let ?c = "length (blocks g)"
  have oke: "gen_ok ?ge pos tp" using assms(1) by (rule enter_loop_ok)
  from codegen_children_ok[OF oke, of cs]
  obtain g5 where g5: "codegen_children cs ?ge = Some g5" "gen_ok g5 pos tp" "extends ?ge g5"
    by blast
  from g5(2) obtain b5 where b5: "insert_block g5 = Some b5"
    and nv5: "fst pos < next_reg g5" "fst tp < next_reg g5"
    by (rule gen_okE)
  have nvs: "named_values g5 = named_values g"
    using g5(3) by (auto elim!: extendsE simp: enter_loop_fields)
  let ?g' = "leave_loop ?c g5 pos tp"
  have cg: "codegen (ConditionalGroupNode cs) g = Some ?g'"
    using assms(1) g5(1) nvs by (rule codegen_loop)
  note sh = loop_shape[OF assms(1) b(1) g5(3) b5]
  have t: "tail_code g (blocks ?g') = loop_test (next_reg g) pos tp ?c (?c + 1) @ []"
    using b(1) sh(4) by (intro tail_code_eq) simp_all
  have t5: "tail_code g5 (blocks ?g') = loop_test (next_reg g5) pos tp ?c (?c + 1) @ []"
    using b5 sh(6) by (intro tail_code_eq) simp_all
  from exec_loop_test[OF assms(2) nv assms(3), of ?c "?c + 1" "[]"]
  obtain s1 where s1: "exec_block (tail_code g (blocks ?g')) s
      = Inr (Some (if cell_zero a then ?c + 1 else ?c), s1)" "sim pos tp a s1"
    unfolding t by blast
  from exec_loop_test[OF assms(4) nv5 assms(5), of ?c "?c + 1" "[]"]
  obtain s6 where s6: "exec_block (tail_code g5 (blocks ?g')) s5
      = Inr (Some (if cell_zero a5 then ?c + 1 else ?c), s6)" "sim pos tp a5 s6"
    unfolding t5 by blast
  have run: "\<exists>g0 s0. translate ''[]'' = Some g0 \<and>
        blocks g0 = [prologue @ loop_test 2 POS TP 1 2, loop_test 6 POS TP 1 2, [Ret None]] \<and>
        (\<forall>F. execute (F + 2) g0 inp = Some (Inr s0)) \<and> stdout s0 = [] \<and> stdin s0 = inp"
    by (rule empty_loop_run)
  have f1: "blocks ?ge = (blocks g)[b := blocks g ! b @
              loop_test (next_reg g) pos tp ?c (?c + 1)] @ [[], []]"
    by (rule blocks_enter_loop[OF b])
  have f2: "insert_block ?ge = Some ?c" by (rule enter_loop_fields(1))
  have f3: "blocks ?g' = (blocks g5)[b5 := blocks g5 ! b5 @
              loop_test (next_reg g5) pos tp ?c (?c + 1)]"
    by (rule blocks_leave_loop[OF b5])
  have f8: "insert_block ?g' = Some (?c + 1)" by (rule leave_loop_fields(1))
  have fd: "Some g5 = fold (\<lambda>n go. Option.bind go (codegen n)) cs (Some ?ge)"
    using codegen_children_fold[of cs ?ge] g5(1) by simp
  have st: "list_all is_leaf cs \<longrightarrow>
           b5 = ?c \<and>
           blocks ?g' ! ?c = straight_code cs (next_reg g + 4) pos tp @
                           loop_test (next_reg g5) pos tp ?c (?c + 1)"
  proof
    assume leaves: "list_all is_leaf cs"
    from straight_children[OF oke leaves f2] g5(1)
    have i5: "insert_block g5 = Some ?c"
      and b5s: "blocks g5 = (blocks ?ge)[?c := blocks ?ge ! ?c @
                  straight_code cs (next_reg ?ge) pos tp]"
      by auto
    have eq: "b5 = ?c" using i5 b5 by simp
    have "blocks ?ge ! ?c = []" using b(2) by (simp add: f1 nth_append)
    moreover have "?c < length (blocks ?ge)" by (simp add: enter_loop_fields)
    ultimately have "blocks g5 ! ?c = straight_code cs (next_reg g + 4) pos tp"
      by (simp add: b5s enter_loop_fields)
    with sh(6) eq show "b5 = ?c \<and>
           blocks ?g' ! ?c = straight_code cs (next_reg g + 4) pos tp @
                           loop_test (next_reg g5) pos tp ?c (?c + 1)"
      by simp
  qed
  have sm: "grows (blocks ?g') B \<and> bf_node f (ConditionalGroupNode cs) a = Some r \<longrightarrow>
           reaches B pos tp (tail_code g B) s r (tail_code ?g' B)"
    using simulation(1)[of pos tp "ConditionalGroupNode cs" B a f] assms(1,2) cg by blast
  show ?thesis
    unfolding Let_def
    apply (rule exI[of _ b], rule exI[of _ g5], rule exI[of _ b5], rule exI[of _ ?g'],
        rule exI[of _ s1], rule exI[of _ s6])
    apply (intro conjI)
                   apply (rule b(1))
                  apply (rule g5(1))
                 apply (rule b5)
                apply (rule cg)
               apply (rule f1)
              apply (rule f2)
             apply (rule f3)
            apply (rule sh(2))
           apply (rule sh(1))
          apply (rule sh(4))
         apply (rule sh(5))
        apply (rule f8)
       apply (rule s1(1))
      apply (rule s1(2))
     apply (rule s6(1))
       apply (rule s6(2))
      apply (rule fd)
     apply (rule st)
    apply (rule sm)
    apply (rule run)
    done
qed

lemma grows_CreateRet:
  assumes "insert_block g = Some b"
  shows "grows (blocks g) (blocks (CreateRet None g))"
proof (rule growsI)
  have B: "blocks (CreateRet None g) = (blocks g)[b := blocks g ! b @ [Ret None]]"
    using assms by (simp add: Create_advance blocks_advance)
  show "length (blocks g) \<le> length (blocks (CreateRet None g))" by (simp add: B)
  fix j assume "j < length (blocks g)"
  then show "\<exists>zs. blocks (CreateRet None g) ! j = blocks g ! j @ zs"
    by (cases "j = b") (simp_all add: B)
qed

theorem loop_lowering_witness:
  "gen_ok entry_state POS TP \<and>
   sim POS TP (BF 0 ((\<lambda>_. 0)(0 := 1)) [] []) one_mstate \<and> in_bounds 0 \<and>
   list_all is_leaf [DecrementNode] \<and>
   bf_node (Suc 0) (ConditionalGroupNode [DecrementNode]) (BF 0 ((\<lambda>_. 0)(0 := 1)) [] [])
     = Some (Inr (BF 0 ((\<lambda>_. 0)(0 := 0)) [] [])) \<and>
   (\<exists>g5 g'. codegen_children [DecrementNode] (enter_loop entry_state POS TP) = Some g5 \<and>
      codegen (ConditionalGroupNode [DecrementNode]) entry_state = Some g' \<and>
      blocks g' ! 2 = [] \<and> insert_block g' = Some 2 \<and>
      blocks g' ! 1 = straight_code [DecrementNode] 6 POS TP @ loop_test (next_reg g5) POS TP 1 2 \<and>
      reaches (blocks (CreateRet None g')) POS TP
        (tail_code entry_state (blocks (CreateRet None g'))) one_mstate
        (Inr (BF 0 ((\<lambda>_. 0)(0 := 0)) [] []))
        (tail_code g' (blocks (CreateRet None g'))))"
proof -
  let ?a = "BF 0 ((\<lambda>_. 0)(0 := 1)) [] []"
  let ?a' = "BF 0 ((\<lambda>_. 0)(0 := 0)) [] []"
  let ?cs = "[DecrementNode]"
  have l: "length (blocks entry_state) = 1" "next_reg entry_state = 2"
    by (simp_all add: entry_state_def)
  have sm: "sim POS TP ?a one_mstate" by (simp add: sim_def one_mstate_def)
  have ib: "in_bounds (bf_ptr ?a)" by (simp add: in_bounds_small)
  have lf: "list_all is_leaf ?cs" by (simp add: is_leaf_def)
  have bf: "bf_node (Suc 0) (ConditionalGroupNode ?cs) ?a = Some (Inr ?a')"
    by (simp add: in_bounds_small cell_zero_def)
  obtain g5 g' where cg: "codegen_children ?cs (enter_loop entry_state POS TP) = Some g5"
    "codegen (ConditionalGroupNode ?cs) entry_state = Some g'"
    and m: "blocks g' ! (length (blocks entry_state) + 1) = []"
      "insert_block g' = Some (length (blocks entry_state) + 1)"
    and st: "list_all is_leaf ?cs \<longrightarrow>
        blocks g' ! length (blocks entry_state)
          = straight_code ?cs (next_reg entry_state + 4) POS TP @
            loop_test (next_reg g5) POS TP (length (blocks entry_state))
              (length (blocks entry_state) + 1)"
    and rn: "\<And>B. grows (blocks g') B \<and>
           bf_node (Suc 0) (ConditionalGroupNode ?cs) ?a = Some (Inr ?a') \<longrightarrow>
           reaches B POS TP (tail_code entry_state B) one_mstate (Inr ?a') (tail_code g' B)"
  proof -
    have det: "\<And>x y. codegen (ConditionalGroupNode ?cs) entry_state = Some x \<Longrightarrow>
                     codegen (ConditionalGroupNode ?cs) entry_state = Some y \<Longrightarrow> x = y"
      by simp
    have det5: "\<And>x y. codegen_children ?cs (enter_loop entry_state POS TP) = Some x \<Longrightarrow>
                      codegen_children ?cs (enter_loop entry_state POS TP) = Some y \<Longrightarrow> x = y"
      by simp
    from loop_lowering[OF entry_state_ok sm ib sm ib, of ?cs "blocks entry_state" "Suc 0" "Inr ?a'" "[]"]
    obtain h5 h' where h: "codegen_children ?cs (enter_loop entry_state POS TP) = Some h5"
      "codegen (ConditionalGroupNode ?cs) entry_state = Some h'"
      "blocks h' ! (length (blocks entry_state) + 1) = []"
      "insert_block h' = Some (length (blocks entry_state) + 1)"
      "list_all is_leaf ?cs \<longrightarrow>
        blocks h' ! length (blocks entry_state)
          = straight_code ?cs (next_reg entry_state + 4) POS TP @
            loop_test (next_reg h5) POS TP (length (blocks entry_state))
              (length (blocks entry_state) + 1)"
      unfolding Let_def by blast
    have "grows (blocks h') B \<and>
           bf_node (Suc 0) (ConditionalGroupNode ?cs) ?a = Some (Inr ?a') \<longrightarrow>
           reaches B POS TP (tail_code entry_state B) one_mstate (Inr ?a') (tail_code h' B)" for B
    proof -
      from loop_lowering[OF entry_state_ok sm ib sm ib, of ?cs B "Suc 0" "Inr ?a'" "[]"]
      obtain k' where "codegen (ConditionalGroupNode ?cs) entry_state = Some k'"
        "grows (blocks k') B \<and>
           bf_node (Suc 0) (ConditionalGroupNode ?cs) ?a = Some (Inr ?a') \<longrightarrow>
           reaches B POS TP (tail_code entry_state B) one_mstate (Inr ?a') (tail_code k' B)"
        unfolding Let_def by blast
      then show ?thesis using det[OF h(2)] by blast
    qed
    with h show ?thesis using that by blast
  qed
  from m have m2: "blocks g' ! 2 = []" "insert_block g' = Some 2"
    unfolding l by (simp_all add: numeral_2_eq_2)
  from st lf have body: "blocks g' ! 1 = straight_code ?cs 6 POS TP @
      loop_test (next_reg g5) POS TP 1 2"
    unfolding l by (simp add: numeral_2_eq_2)
  have "grows (blocks g') (blocks (CreateRet None g'))"
    using m2(2) by (rule grows_CreateRet)
  with rn[of "blocks (CreateRet None g')"] bf
  have "reaches (blocks (CreateRet None g')) POS TP
        (tail_code entry_state (blocks (CreateRet None g'))) one_mstate (Inr ?a')
        (tail_code g' (blocks (CreateRet None g')))" by blast
  with cg m2 body show ?thesis
    using entry_state_ok sm in_bounds_small(1) lf bf by blast
qed

end
